theory Spec2Isabelle
  imports Main "HOL-Library.Sublist"
begin

text \<open>
  A model of the Auto MOC Linker plugin, \<^verbatim>\<open>src/main.js\<close>: the extraction of tags from a
  note, the extraction of links from a hub, the merge of a link line under the section
  heading of a hub, the resolution of tags to mappings, and the batch run that ties them
  together, with the vault as explicit state. The definitions come first, the properties
  follow.
\<close>

section \<open>Strings of the plugin\<close>

text \<open>
  The plugin is JavaScript; its strings are sequences of UTF-16 code units. The model
  uses \<^typ>\<open>string\<close>, reading a \<^typ>\<open>char\<close> as the code unit of the same number, so
  it covers the texts whose code units are below 256 (ASCII and Latin-1). In that range
  the white space of \<^verbatim>\<open>\s\<close> and of \<^verbatim>\<open>trim()\<close> is TAB, LF, VT, FF, CR, SPACE and
  NBSP, and the line terminators (where \<^verbatim>\<open>.\<close> does not match and where a multiline
  \<^verbatim>\<open>^\<close> or \<^verbatim>\<open>$\<close> matches) are LF and CR.
\<close>

definition is_space :: "char \<Rightarrow> bool" where
  "is_space c \<longleftrightarrow> c = CHR 0x09 \<or> c = CHR 0x0A \<or> c = CHR 0x0B \<or> c = CHR 0x0C
     \<or> c = CHR 0x0D \<or> c = CHR 0x20 \<or> c = CHR 0xA0"

definition is_line_terminator :: "char \<Rightarrow> bool" where
  "is_line_terminator c \<longleftrightarrow> c = CHR 0x0A \<or> c = CHR 0x0D"

text \<open>\<^verbatim>\<open>String.prototype.trim\<close>.\<close>

definition trim :: "string \<Rightarrow> string" where
  "trim s = rev (dropWhile is_space (rev (dropWhile is_space s)))"

text \<open>\<^verbatim>\<open>String.prototype.toLowerCase\<close> on code units below 256: \<^verbatim>\<open>A-Z\<close> and the
  Latin-1 capitals \<^verbatim>\<open>0xC0-0xDE\<close> (without the multiplication sign \<^verbatim>\<open>0xD7\<close>) move up
  by 32.\<close>

definition toLowerChar :: "char \<Rightarrow> char" where
  "toLowerChar c =
     (let n = (of_char c :: nat)
      in if (65 \<le> n \<and> n \<le> 90) \<or> (192 \<le> n \<and> n \<le> 222 \<and> n \<noteq> 215)
         then char_of (n + 32) else c)"

definition toLowerCase :: "string \<Rightarrow> string" where
  "toLowerCase s = map toLowerChar s"

text \<open>\<^verbatim>\<open>s.indexOf(pat)\<close>: the first index at which \<open>pat\<close> starts, \<open>None\<close> for \<open>-1\<close>.\<close>

fun indexOf :: "string \<Rightarrow> string \<Rightarrow> nat option" where
  "indexOf pat [] = (if pat = [] then Some 0 else None)"
| "indexOf pat (c # cs) =
     (if prefix pat (c # cs) then Some 0 else map_option Suc (indexOf pat cs))"

text \<open>\<^verbatim>\<open>s.split(sep)\<close> for a separator that is not empty: the pieces between the
  occurrences of \<open>sep\<close>, found from left to right without overlap. The accumulator holds
  the current piece, reversed.\<close>

fun splitAcc :: "string \<Rightarrow> string \<Rightarrow> string \<Rightarrow> string list" where
  "splitAcc sep acc [] = [rev acc]"
| "splitAcc sep acc (c # cs) =
     (if sep \<noteq> [] \<and> prefix sep (c # cs)
      then rev acc # splitAcc sep [] (drop (length sep - 1) cs)
      else splitAcc sep (c # acc) cs)"

definition split :: "string \<Rightarrow> string \<Rightarrow> string list" where
  "split sep s = splitAcc sep [] s"

section \<open>Settings and hub paths\<close>

record tag_mapping =
  tag :: string
  mocPath :: string

record settings =
  tagMappings :: "tag_mapping list"
  defaultPath :: string
  appendFormat :: string
  sectionHeading :: string
  batchSize :: nat

text \<open>\<^verbatim>\<open>ensureMdExtension(path)\<close>, lines 54-58.\<close>

definition ensureMdExtension :: "string \<Rightarrow> string" where
  "ensureMdExtension path =
     (if path = [] then path
      else if suffix ''.md'' (toLowerCase path) then path
      else path @ ''.md'')"

text \<open>The tag comparison of \<^verbatim>\<open>processBatch\<close>, lines 120-126: one leading \<^verbatim>\<open>#\<close> is
  dropped on both sides, then the strings are compared with \<^verbatim>\<open>===\<close>.\<close>

definition stripHash :: "string \<Rightarrow> string" where
  "stripHash t = (if prefix ''#'' t then drop 1 t else t)"

definition matchingMappings :: "tag_mapping list \<Rightarrow> string \<Rightarrow> tag_mapping list" where
  "matchingMappings ms t = filter (\<lambda>m. stripHash (tag m) = stripHash t) ms"

section \<open>Regular expressions\<close>

text \<open>
  Every regular expression of the plugin is a sequence of the atoms below. A match is found
  by backtracking, as in JavaScript: each atom offers its ways of consuming a prefix of the
  input in order of priority (a greedy repetition the longest first, a lazy one the
  shortest first), and the first way under which the rest of the sequence matches is
  taken. The result lists the text consumed by each atom, so a capture group is read at
  the position of its atom, followed by the input that remains.
\<close>

datatype atom =
    Lit string
  | Star "char \<Rightarrow> bool"
  | Plus "char \<Rightarrow> bool"
  | LazyStar "char \<Rightarrow> bool"
  | EndInput
  | EndLine
  | NlOrEnd

fun greedy_splits :: "(char \<Rightarrow> bool) \<Rightarrow> string \<Rightarrow> (string \<times> string) list" where
  "greedy_splits p [] = [([], [])]"
| "greedy_splits p (c # cs) =
     (if p c then map (\<lambda>(a, r). (c # a, r)) (greedy_splits p cs) else []) @ [([], c # cs)]"

fun lazy_splits :: "(char \<Rightarrow> bool) \<Rightarrow> string \<Rightarrow> (string \<times> string) list" where
  "lazy_splits p [] = [([], [])]"
| "lazy_splits p (c # cs) =
     ([], c # cs) # (if p c then map (\<lambda>(a, r). (c # a, r)) (lazy_splits p cs) else [])"

text \<open>\<open>EndInput\<close> is \<^verbatim>\<open>$\<close> without the \<^verbatim>\<open>m\<close> flag, \<open>EndLine\<close> is \<^verbatim>\<open>$\<close> with it,
  \<open>NlOrEnd\<close> is \<^verbatim>\<open>(?:\n|$)\<close> without the flag.\<close>

fun alts :: "atom \<Rightarrow> string \<Rightarrow> (string \<times> string) list" where
  "alts (Lit l) s = (if prefix l s then [(l, drop (length l) s)] else [])"
| "alts (Star p) s = greedy_splits p s"
| "alts (Plus p) s = filter (\<lambda>(a, r). a \<noteq> []) (greedy_splits p s)"
| "alts (LazyStar p) s = lazy_splits p s"
| "alts EndInput s = (if s = [] then [([], s)] else [])"
| "alts EndLine s = (if s = [] \<or> is_line_terminator (hd s) then [([], s)] else [])"
| "alts NlOrEnd s =
     (if prefix ''\<newline>'' s then [(''\<newline>'', drop 1 s)] else [])
     @ (if s = [] then [([], s)] else [])"

fun first_some :: "('a \<Rightarrow> 'b option) \<Rightarrow> 'a list \<Rightarrow> 'b option" where
  "first_some f [] = None"
| "first_some f (x # xs) = (case f x of Some y \<Rightarrow> Some y | None \<Rightarrow> first_some f xs)"

primrec rx :: "atom list \<Rightarrow> string \<Rightarrow> (string list \<times> string) option" where
  "rx [] s = Some ([], s)"
| "rx (a # as) s =
     first_some (\<lambda>(c, r). map_option (\<lambda>(cs, r'). (c # cs, r')) (rx as r)) (alts a s)"

text \<open>\<^verbatim>\<open>s.match(re)\<close> for an expression without \<^verbatim>\<open>^\<close>: the match at the leftmost
  position that has one, with the text that precedes it.\<close>

fun rx_search :: "atom list \<Rightarrow> string \<Rightarrow> string \<Rightarrow> (string \<times> string list \<times> string) option" where
  "rx_search as pre [] = map_option (\<lambda>(gs, r). (rev pre, gs, r)) (rx as [])"
| "rx_search as pre (c # cs) =
     (case rx as (c # cs) of
        Some (gs, r) \<Rightarrow> Some (rev pre, gs, r)
      | None \<Rightarrow> rx_search as (c # pre) cs)"

text \<open>The same for an expression that starts with \<^verbatim>\<open>^\<close> under the \<^verbatim>\<open>m\<close> flag: a match
  may start at the beginning of the input and behind a line terminator only. \<open>bol\<close> says
  whether the current position is such a place.\<close>

fun rx_search_bol ::
  "atom list \<Rightarrow> bool \<Rightarrow> string \<Rightarrow> string \<Rightarrow> (string \<times> string list \<times> string) option" where
  "rx_search_bol as bol pre [] =
     (if bol then map_option (\<lambda>(gs, r). (rev pre, gs, r)) (rx as []) else None)"
| "rx_search_bol as bol pre (c # cs) =
     (case (if bol then rx as (c # cs) else None) of
        Some (gs, r) \<Rightarrow> Some (rev pre, gs, r)
      | None \<Rightarrow> rx_search_bol as (is_line_terminator c) (c # pre) cs)"

text \<open>The replacement text of \<^verbatim>\<open>String.prototype.replace\<close> when the replacement is a
  string and the pattern has no capture group: \<^verbatim>\<open>$$\<close> stands for a dollar sign,
  \<^verbatim>\<open>$&\<close> for the matched text, \<^verbatim>\<open>$`\<close> for the text that precedes the match and \<^verbatim>\<open>$'\<close>
  for the text that follows it; any other character, a dollar sign included, stands for itself.\<close>

fun getSubstitution :: "string \<Rightarrow> string \<Rightarrow> string \<Rightarrow> string \<Rightarrow> string" where
  "getSubstitution [] matched front back = []"
| "getSubstitution (c # r) matched front back =
     (if c = CHR ''$'' then
        (case r of
           [] \<Rightarrow> [c]
         | d # r' \<Rightarrow>
             if d = CHR ''$'' then CHR ''$'' # getSubstitution r' matched front back
             else if d = CHR ''&'' then matched @ getSubstitution r' matched front back
             else if d = CHR 0x60 then front @ getSubstitution r' matched front back
             else if d = CHR 0x27 then back @ getSubstitution r' matched front back
             else c # getSubstitution r matched front back)
      else c # getSubstitution r matched front back)"

text \<open>\<^verbatim>\<open>s.replace(pat, repl)\<close> with a string pattern: the first occurrence only.\<close>

definition replaceString :: "string \<Rightarrow> string \<Rightarrow> string \<Rightarrow> string" where
  "replaceString s pat repl =
     (case indexOf pat s of
        None \<Rightarrow> s
      | Some i \<Rightarrow>
          take i s
          @ getSubstitution repl pat (take i s) (drop (i + length pat) s)
          @ drop (i + length pat) s)"

section \<open>Tag extraction\<close>

text \<open>\<^verbatim>\<open>extractTags(content)\<close>, lines 241-298. The front matter is group 1 of
  \<^verbatim>\<open>/^---\n([\s\S]*?)\n---/\<close>, which has no \<^verbatim>\<open>m\<close> flag and so matches at the start of
  the text only.\<close>

definition frontmatterMatch :: "string \<Rightarrow> string option" where
  "frontmatterMatch content =
     map_option (\<lambda>(gs, r). gs ! 1)
       (rx [Lit ''---\<newline>'', LazyStar (\<lambda>c. True), Lit ''\<newline>---''] content)"

text \<open>\<^verbatim>\<open>/tags\s*:\s*([^\n\[\]]+)(?:\n|$)/\<close>, group 1 at atom 4.\<close>

definition singleTagRx :: "atom list" where
  "singleTagRx =
     [Lit ''tags'', Star is_space, Lit '':'', Star is_space,
      Plus (\<lambda>c. c \<noteq> CHR 0x0A \<and> c \<noteq> CHR ''['' \<and> c \<noteq> CHR '']''), NlOrEnd]"

definition singleTag :: "string \<Rightarrow> string list" where
  "singleTag frontmatter =
     (case rx_search singleTagRx [] frontmatter of
        Some (pre, gs, r) \<Rightarrow> (if gs ! 4 \<noteq> [] then [trim (gs ! 4)] else [])
      | None \<Rightarrow> [])"

text \<open>\<^verbatim>\<open>/tags\s*:\s*\[(.*?)\]/\<close>, group 1 at atom 5.\<close>

definition inlineArrayRx :: "atom list" where
  "inlineArrayRx =
     [Lit ''tags'', Star is_space, Lit '':'', Star is_space, Lit ''['',
      LazyStar (\<lambda>c. \<not> is_line_terminator c), Lit '']'']"

definition inlineArray :: "string \<Rightarrow> string list" where
  "inlineArray frontmatter =
     (case rx_search inlineArrayRx [] frontmatter of
        Some (pre, gs, r) \<Rightarrow>
          (if gs ! 5 \<noteq> [] then filter (\<lambda>t. length t > 0) (map trim (split '','' (gs ! 5)))
           else [])
      | None \<Rightarrow> [])"

text \<open>The loop over the lines of the front matter, lines 266-282: \<^verbatim>\<open>/^tags\s*:/\<close>
  opens a block, \<^verbatim>\<open>/^\s*-\s*(.+)$/\<close> (group 1 at atom 3) is a list item.\<close>

definition tagsKeyRx :: "atom list" where
  "tagsKeyRx = [Lit ''tags'', Star is_space, Lit '':'']"

definition listItemRx :: "atom list" where
  "listItemRx =
     [Star is_space, Lit ''-'', Star is_space, Plus (\<lambda>c. \<not> is_line_terminator c), EndInput]"

fun multilineTags :: "bool \<Rightarrow> string list \<Rightarrow> string list" where
  "multilineTags inTagsBlock [] = []"
| "multilineTags inTagsBlock (line # lines) =
     (if rx tagsKeyRx line \<noteq> None then multilineTags True lines
      else if inTagsBlock then
        (case rx listItemRx line of
           Some (gs, r) \<Rightarrow> trim (gs ! 3) # multilineTags True lines
         | None \<Rightarrow>
             if \<not> prefix ''-'' (trim line) then multilineTags False lines
             else multilineTags True lines)
      else multilineTags False lines)"

definition frontmatterTags :: "string \<Rightarrow> string list" where
  "frontmatterTags frontmatter =
     singleTag frontmatter @ inlineArray frontmatter
     @ multilineTags False (split ''\<newline>'' frontmatter)"

text \<open>The inline tags, lines 287-293: the text is cut at every \<^verbatim>\<open>#\<close>, the piece in front of
  the first one is dropped, and \<^verbatim>\<open>/^([a-zA-Z0-9_-]+)/\<close> is tried on each piece.\<close>

definition is_tag_char :: "char \<Rightarrow> bool" where
  "is_tag_char c \<longleftrightarrow>
     (let n = (of_char c :: nat)
      in (97 \<le> n \<and> n \<le> 122) \<or> (65 \<le> n \<and> n \<le> 90) \<or> (48 \<le> n \<and> n \<le> 57)
         \<or> c = CHR ''_'' \<or> c = CHR ''-'')"

definition bodyTags :: "string \<Rightarrow> string list" where
  "bodyTags content =
     concat (map (\<lambda>part. case rx [Plus is_tag_char] part of
                            Some (gs, r) \<Rightarrow> [gs ! 0]
                          | None \<Rightarrow> [])
                 (drop 1 (split ''#'' content)))"

definition extractTags :: "string \<Rightarrow> string list" where
  "extractTags content =
     (case frontmatterMatch content of
        Some frontmatter \<Rightarrow> (if frontmatter \<noteq> [] then frontmatterTags frontmatter else [])
      | None \<Rightarrow> [])
     @ bodyTags content"

section \<open>Link extraction\<close>

text \<open>\<^verbatim>\<open>extractExistingLinks(content)\<close>, lines 300-315: one step of the loop over
  \<^verbatim>\<open>sections[1..]\<close>, then the loop.\<close>

definition sectionLink :: "string \<Rightarrow> string list" where
  "sectionLink sec =
     (case indexOf '']]'' sec of
        None \<Rightarrow> []
      | Some endIdx \<Rightarrow> [trim (hd (split ''|'' (take endIdx sec)))])"

definition extractExistingLinks :: "string \<Rightarrow> string list" where
  "extractExistingLinks content = concat (map sectionLink (drop 1 (split ''[['' content)))"

section \<open>The section merger\<close>

text \<open>\<^verbatim>\<open>addLinkToMOC(content, newLink, sectionHeading)\<close>, lines 201-210. The heading is
  escaped by \<^verbatim>\<open>replace(/[.*+?^${}()|[\]\\]/g, '\\$&')\<close> and the result is read back as
  a pattern between \<^verbatim>\<open>^\<close> and \<^verbatim>\<open>\s*$\<close>. \<open>patternLiterals\<close> reads a pattern made of
  plain characters and escaped syntax characters; it gives \<open>None\<close> on any other pattern.\<close>

definition is_syntax_char :: "char \<Rightarrow> bool" where
  "is_syntax_char c \<longleftrightarrow> c \<in> set ''.*+?^${}()|[]'' \<or> c = CHR 0x5C"

definition escapeRegExp :: "string \<Rightarrow> string" where
  "escapeRegExp h = concat (map (\<lambda>c. if is_syntax_char c then [CHR 0x5C, c] else [c]) h)"

fun patternLiterals :: "string \<Rightarrow> string option" where
  "patternLiterals [] = Some []"
| "patternLiterals [c] = (if is_syntax_char c then None else Some [c])"
| "patternLiterals (c # d # r) =
     (if c = CHR 0x5C then
        (if is_syntax_char d then map_option ((#) d) (patternLiterals r) else None)
      else if is_syntax_char c then None
      else map_option ((#) c) (patternLiterals (d # r)))"

definition headingRegex :: "string \<Rightarrow> atom list" where
  "headingRegex heading =
     [Lit (the (patternLiterals (escapeRegExp heading))), Star is_space, EndLine]"

definition addLinkToMOC :: "string \<Rightarrow> string \<Rightarrow> string \<Rightarrow> string" where
  "addLinkToMOC content newLink heading =
     (case rx_search_bol (headingRegex heading) True [] content of
        Some (front, gs, back) \<Rightarrow>
          front
          @ getSubstitution (heading @ ''\<newline>'' @ newLink) (concat gs) front back
          @ back
      | None \<Rightarrow> content @ ''\<newline>\<newline>'' @ heading @ ''\<newline>'' @ newLink)"

section \<open>The vault and the state of the plugin\<close>

text \<open>
  A \<^verbatim>\<open>TFile\<close> carries its path, base name and extension. The vault holds the text of
  every file by path, the children of every folder by path, and the list that
  \<^verbatim>\<open>getMarkdownFiles()\<close> returns. \<^verbatim>\<open>vault.read\<close> throws on the paths in \<open>unreadable\<close>
  and on a path that holds no file; \<^verbatim>\<open>vault.modify\<close> throws on the paths in
  \<open>unwritable\<close>. A throw is the result \<open>None\<close>.
\<close>

record note_file =
  path :: string
  basename :: string
  extension :: string

datatype abstract_file = TFile note_file | TFolder "abstract_file list"

record vault =
  contents :: "string \<rightharpoonup> string"
  folders :: "string \<rightharpoonup> abstract_file list"
  markdownFiles :: "note_file list"
  unreadable :: "string set"
  unwritable :: "string set"

definition getAbstractFileByPath :: "vault \<Rightarrow> string \<Rightarrow> bool" where
  "getAbstractFileByPath v p \<longleftrightarrow> contents v p \<noteq> None \<or> folders v p \<noteq> None"

definition read :: "vault \<Rightarrow> string \<Rightarrow> string option" where
  "read v p = (if p \<in> unreadable v then None else contents v p)"

definition modify :: "vault \<Rightarrow> string \<Rightarrow> string \<Rightarrow> vault option" where
  "modify v p text =
     (if p \<in> unwritable v then None else Some (v\<lparr>contents := (contents v)(p \<mapsto> text)\<rparr>))"

text \<open>\<^verbatim>\<open>getFilesInPath(path)\<close>, lines 212-239, with its local \<^verbatim>\<open>collectFiles\<close>.\<close>

fun collectFiles :: "abstract_file list \<Rightarrow> note_file list" where
  "collectFiles [] = []"
| "collectFiles (TFolder children # rest) = collectFiles children @ collectFiles rest"
| "collectFiles (TFile child # rest) =
     (if extension child = ''md'' then [child] else []) @ collectFiles rest"

definition getFilesInPath :: "vault \<Rightarrow> string \<Rightarrow> note_file list" where
  "getFilesInPath v p =
     (if p = ''/'' then markdownFiles v
      else (case folders v p of Some children \<Rightarrow> collectFiles children | None \<Rightarrow> []))"

text \<open>The two caches, the counter and the console. The console keeps the messages of
  \<^verbatim>\<open>processBatch\<close> and \<^verbatim>\<open>processTagMappings\<close> in the order they are written; the
  notices shown to the user are not modelled.\<close>

record file_data =
  content :: string
  tags :: "string list"

record moc_data =
  mocContent :: string
  links :: "string list"

datatype log_event =
    FailedToReadFile string
  | MocNotFound string
  | FailedToReadMoc string
  | AddingLink string string
  | AddedLink string string nat
  | ErrorProcessingMapping string

record plugin =
  fileCache :: "string \<rightharpoonup> file_data"
  mocLinksCache :: "string \<rightharpoonup> moc_data"
  totalNotesAdded :: nat
  app_vault :: vault
  console :: "log_event list"

definition log :: "log_event \<Rightarrow> plugin \<Rightarrow> plugin" where
  "log e st = st\<lparr>console := console st @ [e]\<rparr>"

section \<open>The batch orchestrator\<close>

text \<open>The lazy load of a hub, lines 154-165: the cached entry, or the entry read from the
  vault and stored; \<open>None\<close> when the read throws.\<close>

definition loadMoc :: "string \<Rightarrow> plugin \<Rightarrow> (moc_data \<times> plugin) option" where
  "loadMoc p st =
     (case mocLinksCache st p of
        Some d \<Rightarrow> Some (d, st)
      | None \<Rightarrow>
          (case read (app_vault st) p of
             None \<Rightarrow> None
           | Some c \<Rightarrow>
               let d = \<lparr>mocContent = c, links = extractExistingLinks c\<rparr>
               in Some (d, st\<lparr>mocLinksCache := (mocLinksCache st)(p \<mapsto> d)\<rparr>)))"

text \<open>One round of the loop of \<^verbatim>\<open>processTagMappings(file, mappings)\<close>, lines 140-198.
  A successful \<^verbatim>\<open>vault.modify\<close> fires the \<^verbatim>\<open>modify\<close> listener of lines 26-30, which
  drops the hub's entry of \<open>fileCache\<close>.\<close>

definition processMapping :: "settings \<Rightarrow> note_file \<Rightarrow> tag_mapping \<Rightarrow> plugin \<Rightarrow> plugin" where
  "processMapping cfg file m st =
     (if mocPath m = [] then st
      else
        let p = ensureMdExtension (mocPath m) in
        if \<not> getAbstractFileByPath (app_vault st) p then log (MocNotFound p) st
        else
          (case loadMoc p st of
             None \<Rightarrow> log (FailedToReadMoc p) st
           | Some (mocData, st1) \<Rightarrow>
               let fileName = basename file in
               if fileName \<in> set (links mocData) then st1
               else
                 let newLink = replaceString (appendFormat cfg) ''{{fileName}}'' fileName;
                     heading = (if sectionHeading cfg = [] then ''## Links''
                                else sectionHeading cfg);
                     updatedContent = addLinkToMOC (mocContent mocData) newLink heading;
                     st2 = log (AddingLink fileName p) st1
                 in
                 (case modify (app_vault st2) p updatedContent of
                    None \<Rightarrow> log (ErrorProcessingMapping (mocPath m)) st2
                  | Some v \<Rightarrow>
                      let st3 = st2\<lparr>app_vault := v,
                                     fileCache := (fileCache st2)(p := None),
                                     totalNotesAdded := totalNotesAdded st2 + 1\<rparr>;
                          st4 = log (AddedLink fileName p (totalNotesAdded st3)) st3
                      in st4\<lparr>mocLinksCache := (mocLinksCache st4)
                               (p \<mapsto> \<lparr>mocContent = updatedContent,
                                       links = links mocData @ [fileName]\<rparr>)\<rparr>)))"

fun processTagMappings :: "settings \<Rightarrow> note_file \<Rightarrow> tag_mapping list \<Rightarrow> plugin \<Rightarrow> plugin" where
  "processTagMappings cfg file [] st = st"
| "processTagMappings cfg file (m # ms) st =
     processTagMappings cfg file ms (processMapping cfg file m st)"

text \<open>The loop over the tags of one note, lines 119-133.\<close>

fun processTags :: "settings \<Rightarrow> note_file \<Rightarrow> string list \<Rightarrow> plugin \<Rightarrow> plugin" where
  "processTags cfg file [] st = st"
| "processTags cfg file (t # ts) st =
     (let matching = matchingMappings (tagMappings cfg) t
      in if length matching = 0 then processTags cfg file ts st
         else processTags cfg file ts (processTagMappings cfg file matching st))"

text \<open>The cached data of a note, lines 100-111: the cached entry, or the entry read and
  stored; \<open>None\<close> when the read throws.\<close>

definition loadFile :: "note_file \<Rightarrow> plugin \<Rightarrow> (file_data \<times> plugin) option" where
  "loadFile file st =
     (case fileCache st (path file) of
        Some d \<Rightarrow> Some (d, st)
      | None \<Rightarrow>
          (case read (app_vault st) (path file) of
             None \<Rightarrow> None
           | Some c \<Rightarrow>
               let d = \<lparr>content = c, tags = extractTags c\<rparr>
               in Some (d, st\<lparr>fileCache := (fileCache st)(path file \<mapsto> d)\<rparr>)))"

text \<open>One round of the loop of \<^verbatim>\<open>processBatch(files)\<close>, lines 96-134, then the loop.\<close>

definition processFile :: "settings \<Rightarrow> note_file \<Rightarrow> plugin \<Rightarrow> plugin" where
  "processFile cfg file st =
     (if extension file \<noteq> ''md'' then st
      else
        (case loadFile file st of
           None \<Rightarrow> log (FailedToReadFile (path file)) st
         | Some (fileData, st1) \<Rightarrow>
             if length (tags fileData) = 0 then st1
             else processTags cfg file (tags fileData) st1))"

fun processBatch :: "settings \<Rightarrow> note_file list \<Rightarrow> plugin \<Rightarrow> plugin" where
  "processBatch cfg [] st = st"
| "processBatch cfg (file # files) st = processBatch cfg files (processFile cfg file st)"

text \<open>The loop of \<^verbatim>\<open>runAutoIndex()\<close>, lines 79-87: \<^verbatim>\<open>i\<close> advances by the batch size, so
  the loop does not end when the batch size is 0 and there are files. \<open>None\<close> is the run
  that does not return.\<close>

partial_function (option) batchLoop ::
  "settings \<Rightarrow> note_file list \<Rightarrow> nat \<Rightarrow> plugin \<Rightarrow> plugin option" where
  "batchLoop cfg files i st =
     (if i < length files
      then batchLoop cfg files (i + batchSize cfg)
             (processBatch cfg (take (batchSize cfg) (drop i files)) st)
      else Some st)"

declare batchLoop.simps [code]

text \<open>\<^verbatim>\<open>runAutoIndex()\<close>, lines 60-92. The count reported at the end is
  \<open>totalNotesAdded\<close> of the state returned.\<close>

definition runAutoIndex :: "settings \<Rightarrow> plugin \<Rightarrow> plugin option" where
  "runAutoIndex cfg st =
     (let searchPath = (if defaultPath cfg = [] then ''/'' else defaultPath cfg);
          st0 = st\<lparr>totalNotesAdded := 0\<rparr>;
          files = getFilesInPath (app_vault st0) searchPath;
          st1 = st0\<lparr>mocLinksCache := Map.empty\<rparr>
      in batchLoop cfg files 0 st1)"

section \<open>Notions used in the statements\<close>

text \<open>The insertions of a stretch of the console: hub path and note name of every
  \<^verbatim>\<open>Added link to ... in ...\<close> message, which line 188 writes after each successful
  \<^verbatim>\<open>vault.modify\<close>.\<close>

fun insertions :: "log_event list \<Rightarrow> (string \<times> string) list" where
  "insertions [] = []"
| "insertions (AddedLink fileName p n # es) = (p, fileName) # insertions es"
| "insertions (e # es) = insertions es"

text \<open>The tags under which a run sees a note: the cached ones, else those of the text
  read, and none when the note cannot be read.\<close>

definition seenTags :: "plugin \<Rightarrow> note_file \<Rightarrow> string list" where
  "seenTags st file =
     (case fileCache st (path file) of
        Some d \<Rightarrow> tags d
      | None \<Rightarrow> (case read (app_vault st) (path file) of
                   Some c \<Rightarrow> extractTags c
                 | None \<Rightarrow> []))"

text \<open>The (note, hub path) pairs that the mappings select among the files of a run.\<close>

definition searchPath :: "settings \<Rightarrow> string" where
  "searchPath cfg = (if defaultPath cfg = [] then ''/'' else defaultPath cfg)"

definition selected :: "settings \<Rightarrow> plugin \<Rightarrow> (note_file \<times> string) list" where
  "selected cfg st =
     concat (map (\<lambda>file.
       if extension file = ''md''
       then concat (map (\<lambda>t.
              map (\<lambda>m. (file, ensureMdExtension (mocPath m)))
                (filter (\<lambda>m. mocPath m \<noteq> []) (matchingMappings (tagMappings cfg) t)))
              (seenTags st file))
       else [])
       (getFilesInPath (app_vault st) (searchPath cfg)))"

text \<open>Every selected note is already among the links extracted from the text of its hub,
  for the hubs that can be read.\<close>

definition alreadyLinked :: "settings \<Rightarrow> plugin \<Rightarrow> bool" where
  "alreadyLinked cfg st \<longleftrightarrow>
     list_all (\<lambda>(file, p).
        case read (app_vault st) p of
          Some c \<Rightarrow> basename file \<in> set (extractExistingLinks c)
        | None \<Rightarrow> True)
       (selected cfg st)"


section \<open>Invariants of a run\<close>

text \<open>What holds of the console written since a run started, \<open>base\<close> being the console at
  the start: no insertion is repeated, the counter is the number of insertions, and every
  inserted name is among the cached links of its hub.\<close>

definition tracked :: "log_event list \<Rightarrow> plugin \<Rightarrow> bool" where
  "tracked base st \<longleftrightarrow>
     (\<exists>new. console st = base @ new \<and> distinct (insertions new)
        \<and> totalNotesAdded st = length (insertions new)
        \<and> (\<forall>(p, f) \<in> set (insertions new). \<exists>d. mocLinksCache st p = Some d \<and> f \<in> set (links d)))"

text \<open>What holds during a run that inserts nothing: the counter is 0 and every cached hub
  entry is the text in the vault with the links extracted from it.\<close>

definition quiet :: "plugin \<Rightarrow> bool" where
  "quiet st \<longleftrightarrow>
     totalNotesAdded st = 0
     \<and> (\<forall>p d. mocLinksCache st p = Some d \<longrightarrow>
           read (app_vault st) p = Some (mocContent d)
           \<and> links d = extractExistingLinks (mocContent d))"

definition hubLinked :: "vault \<Rightarrow> note_file \<Rightarrow> tag_mapping \<Rightarrow> bool" where
  "hubLinked v file m \<longleftrightarrow>
     (mocPath m \<noteq> [] \<longrightarrow>
        (case read v (ensureMdExtension (mocPath m)) of
           Some c \<Rightarrow> basename file \<in> set (extractExistingLinks c)
         | None \<Rightarrow> True))"

definition fileLinked :: "settings \<Rightarrow> plugin \<Rightarrow> note_file \<Rightarrow> bool" where
  "fileLinked cfg st file \<longleftrightarrow>
     (extension file = ''md'' \<longrightarrow>
        (\<forall>t \<in> set (seenTags st file). \<forall>m \<in> set (matchingMappings (tagMappings cfg) t).
           hubLinked (app_vault st) file m))"

section \<open>The merger as the specification words it\<close>





section \<open>The extractors as the specification words them\<close>

text \<open>The clean-up of one link: the part in front of the first \<^verbatim>\<open>|\<close>, trimmed.\<close>

definition cleanLink :: "string \<Rightarrow> string" where
  "cleanLink link =
     trim (case indexOf ''|'' link of None \<Rightarrow> link | Some b \<Rightarrow> take b link)"

text \<open>The specification's link extraction: find \<^verbatim>\<open>[[\<close>, take the text up to the next
  \<^verbatim>\<open>]]\<close>, and go on behind that \<^verbatim>\<open>]]\<close>; a \<^verbatim>\<open>[[\<close> with no \<^verbatim>\<open>]]\<close> behind it ends
  the scan.\<close>

function spec_extract_links :: "string \<Rightarrow> string list" where
  "spec_extract_links s =
     (case indexOf ''[['' s of
        None \<Rightarrow> []
      | Some i \<Rightarrow>
          (case indexOf '']]'' (drop (i + 2) s) of
             None \<Rightarrow> []
           | Some j \<Rightarrow>
               cleanLink (take j (drop (i + 2) s))
               # spec_extract_links (drop (j + 2) (drop (i + 2) s))))"
  by pat_completeness auto
termination
  by (relation "measure length") (auto split: if_splits elim!: indexOf.elims)

text \<open>A tag of an inline list as the claim writes it: not empty, without white space at
  its ends, and without comma, closing bracket or line end.\<close>

definition plainTag :: "string \<Rightarrow> bool" where
  "plainTag x \<longleftrightarrow>
     x \<noteq> [] \<and> trim x = x
     \<and> (\<forall>c \<in> set x. c \<noteq> CHR '','' \<and> c \<noteq> CHR '']'' \<and> \<not> is_line_terminator c)"

text \<open>The inline tag that starts a text, if any: its longest run of tag characters.\<close>

definition inlineTag :: "string \<Rightarrow> string list" where
  "inlineTag r = (if takeWhile is_tag_char r = [] then [] else [takeWhile is_tag_char r])"

text \<open>The two tests of the loop over the front-matter lines: the line opens a block,
  and the value of the line as a list item.\<close>

definition isTagsKey :: "string \<Rightarrow> bool" where
  "isTagsKey line \<longleftrightarrow> rx tagsKeyRx line \<noteq> None"

definition listItem :: "string \<Rightarrow> string option" where
  "listItem line = map_option (\<lambda>(gs, r). trim (gs ! 3)) (rx listItemRx line)"

text \<open>The specification's block list: the first line that is \<^verbatim>\<open>tags:\<close> once trimmed
  opens the block, the list items that follow it without a gap are its tags, and no later
  line counts.\<close>

definition spec_blockTags :: "string list \<Rightarrow> string list" where
  "spec_blockTags lines =
     (case dropWhile (\<lambda>l. trim l \<noteq> ''tags:'') lines of
        [] \<Rightarrow> []
      | key # rest \<Rightarrow> map (\<lambda>l. the (listItem l)) (takeWhile (\<lambda>l. listItem l \<noteq> None) rest))"

section \<open>Example vaults\<close>

text \<open>The end-to-end scenario of the specification: note \<^verbatim>\<open>A.md\<close> with the front matter
  \<^verbatim>\<open>tags: [maths]\<close>, the mapping of \<^verbatim>\<open>maths\<close> to \<^verbatim>\<open>MOC\<close>, and the hub \<^verbatim>\<open>MOC.md\<close>
  that holds the heading.\<close>

definition scenarioSettings :: settings where
  "scenarioSettings =
     \<lparr>tagMappings = [\<lparr>tag = ''maths'', mocPath = ''MOC''\<rparr>], defaultPath = ''/'',
      appendFormat = ''- [[{{fileName}}]]\<newline>'', sectionHeading = ''## Links'',
      batchSize = 50\<rparr>"

definition scenarioVault :: vault where
  "scenarioVault =
     \<lparr>contents = [''A.md'' \<mapsto> ''---\<newline>tags: [maths]\<newline>---\<newline>'',
                  ''MOC.md'' \<mapsto> ''## Links\<newline>''],
      folders = Map.empty,
      markdownFiles = [\<lparr>path = ''A.md'', basename = ''A'', extension = ''md''\<rparr>,
                       \<lparr>path = ''MOC.md'', basename = ''MOC'', extension = ''md''\<rparr>],
      unreadable = {}, unwritable = {}\<rparr>"

definition scenarioStart :: plugin where
  "scenarioStart =
     \<lparr>fileCache = Map.empty, mocLinksCache = Map.empty, totalNotesAdded = 0,
      app_vault = scenarioVault, console = []\<rparr>"

text \<open>A vault in which the same note reaches the same hub four times in one run: the
  note carries the tag twice and two mappings name the hub, with and without the
  extension.\<close>

definition repeatSettings :: settings where
  "repeatSettings =
     \<lparr>tagMappings = [\<lparr>tag = ''maths'', mocPath = ''MOC''\<rparr>,
                     \<lparr>tag = ''#maths'', mocPath = ''MOC.md''\<rparr>],
      defaultPath = ''/'', appendFormat = ''- [[{{fileName}}]]\<newline>'',
      sectionHeading = ''## Links'', batchSize = 10\<rparr>"

definition repeatStart :: plugin where
  "repeatStart =
     \<lparr>fileCache = Map.empty, mocLinksCache = Map.empty, totalNotesAdded = 7,
      app_vault =
        \<lparr>contents = [''A.md'' \<mapsto> ''#maths and again #maths'',
                     ''MOC.md'' \<mapsto> ''## Links\<newline>''],
         folders = Map.empty,
         markdownFiles = [\<lparr>path = ''A.md'', basename = ''A'', extension = ''md''\<rparr>],
         unreadable = {}, unwritable = {}\<rparr>,
      console = [MocNotFound ''Old.md'']\<rparr>"

text \<open>A vault with a note that cannot be read, a hub that cannot be read and a hub that
  cannot be written.\<close>

definition noteA :: note_file where
  "noteA = \<lparr>path = ''A.md'', basename = ''A'', extension = ''md''\<rparr>"

definition noteB :: note_file where
  "noteB = \<lparr>path = ''B.md'', basename = ''B'', extension = ''md''\<rparr>"

definition brokenSettings :: settings where
  "brokenSettings =
     \<lparr>tagMappings = [\<lparr>tag = ''phys'', mocPath = ''H''\<rparr>,
                     \<lparr>tag = ''chem'', mocPath = ''W''\<rparr>,
                     \<lparr>tag = ''maths'', mocPath = ''MOC''\<rparr>],
      defaultPath = ''/'', appendFormat = ''- [[{{fileName}}]]\<newline>'',
      sectionHeading = ''## Links'', batchSize = 10\<rparr>"

definition brokenStart :: plugin where
  "brokenStart =
     \<lparr>fileCache = Map.empty, mocLinksCache = Map.empty, totalNotesAdded = 0,
      app_vault =
        \<lparr>contents = [''A.md'' \<mapsto> ''#phys #chem #maths'', ''B.md'' \<mapsto> ''#maths'',
                     ''H.md'' \<mapsto> ''## Links'', ''W.md'' \<mapsto> ''## Links'',
                     ''MOC.md'' \<mapsto> ''## Links''],
         folders = Map.empty, markdownFiles = [noteB, noteA],
         unreadable = {''B.md'', ''H.md''}, unwritable = {''W.md''}\<rparr>,
      console = []\<rparr>"

section \<open>Hub-path normalisation\<close>

lemma toLowerCase_append: "toLowerCase (a @ b) = toLowerCase a @ toLowerCase b"
  by (simp add: toLowerCase_def)

lemma toLowerCase_md: "toLowerCase ''.md'' = ''.md''"
  by (simp add: toLowerCase_def toLowerChar_def)

lemma ensureMd_twice: "ensureMdExtension (ensureMdExtension p) = ensureMdExtension p"
  by (simp add: ensureMdExtension_def toLowerCase_append toLowerCase_md suffix_def)

text \<open>Claim C10: hub-path normalisation returns the empty path unchanged, returns a path
  that already ends in \<^verbatim>\<open>.md\<close> in any letter case unchanged, appends \<^verbatim>\<open>.md\<close> otherwise,
  and is therefore idempotent.\<close>

theorem ensureMdExtension_idempotent:
  "ensureMdExtension [] = []
   \<and> (\<forall>p. suffix ''.md'' (toLowerCase p) \<longrightarrow> ensureMdExtension p = p)
   \<and> (\<forall>p. p \<noteq> [] \<and> \<not> suffix ''.md'' (toLowerCase p) \<longrightarrow> ensureMdExtension p = p @ ''.md'')
   \<and> (\<forall>p. ensureMdExtension (ensureMdExtension p) = ensureMdExtension p)"
proof (intro conjI allI impI)
  fix p show "ensureMdExtension (ensureMdExtension p) = ensureMdExtension p"
    by (rule ensureMd_twice)
qed (simp_all add: ensureMdExtension_def)

theorem ensureMdExtension_idempotent_witness:
  "ensureMdExtension ''Hubs/MOC.MD'' = ''Hubs/MOC.MD''
   \<and> ensureMdExtension ''Hubs/MOC.Md'' = ''Hubs/MOC.Md''
   \<and> ensureMdExtension ''Hubs/MOC'' = ''Hubs/MOC.md''
   \<and> ensureMdExtension (ensureMdExtension ''Hubs/MOC'') = ''Hubs/MOC.md''"
proof -
  have a: "suffix ''.md'' (toLowerCase ''Hubs/MOC.MD'')"
    by code_simp
  have b: "suffix ''.md'' (toLowerCase ''Hubs/MOC.Md'')"
    by code_simp
  have c: "''Hubs/MOC'' \<noteq> [] \<and> \<not> suffix ''.md'' (toLowerCase ''Hubs/MOC'')"
    by code_simp
  from ensureMdExtension_idempotent a b c
  have "ensureMdExtension ''Hubs/MOC.MD'' = ''Hubs/MOC.MD''"
    and "ensureMdExtension ''Hubs/MOC.Md'' = ''Hubs/MOC.Md''"
    and "ensureMdExtension ''Hubs/MOC'' = ''Hubs/MOC'' @ ''.md''"
    and "ensureMdExtension (ensureMdExtension ''Hubs/MOC'') = ensureMdExtension ''Hubs/MOC''"
    by blast+
  then show ?thesis by simp
qed

section \<open>The run terminates, and failures skip one item\<close>

lemma log_simps [simp]:
  "totalNotesAdded (log e st) = totalNotesAdded st"
  "app_vault (log e st) = app_vault st"
  "mocLinksCache (log e st) = mocLinksCache st"
  "fileCache (log e st) = fileCache st"
  "console (log e st) = console st @ [e]"
  by (simp_all add: log_def)

lemma processBatch_append:
  "processBatch cfg (xs @ ys) st = processBatch cfg ys (processBatch cfg xs st)"
  by (induction xs arbitrary: st) simp_all

lemma batchLoop_total:
  "0 < batchSize cfg \<Longrightarrow> batchLoop cfg files i st = Some (processBatch cfg (drop i files) st)"
proof (induction "length files - i" arbitrary: i st rule: less_induct)
  case less
  show ?case
  proof (cases "i < length files")
    case False
    then show ?thesis by (subst batchLoop.simps) simp
  next
    case True
    let ?b = "batchSize cfg"
    have "length files - (i + ?b) < length files - i"
      using True less.prems by arith
    then have "batchLoop cfg files (i + ?b) (processBatch cfg (take ?b (drop i files)) st)
       = Some (processBatch cfg (drop (i + ?b) files) (processBatch cfg (take ?b (drop i files)) st))"
      using less.hyps less.prems by blast
    moreover have "drop i files = take ?b (drop i files) @ drop (i + ?b) files"
      by (metis add.commute append_take_drop_id drop_drop)
    ultimately show ?thesis
      using True by (subst batchLoop.simps) (metis processBatch_append)
  qed
qed

lemma runAutoIndex_total:
  "0 < batchSize cfg \<Longrightarrow>
   runAutoIndex cfg st =
     Some (processBatch cfg (getFilesInPath (app_vault st) (searchPath cfg))
            (st\<lparr>totalNotesAdded := 0, mocLinksCache := Map.empty\<rparr>))"
  by (simp add: runAutoIndex_def batchLoop_total Let_def searchPath_def)

lemma note_read_failure:
  "extension f = ''md'' \<Longrightarrow> fileCache st (path f) = None \<Longrightarrow> read (app_vault st) (path f) = None
   \<Longrightarrow> processFile cfg f st = log (FailedToReadFile (path f)) st"
  by (simp add: processFile_def loadFile_def)

lemma hub_read_failure:
  "mocPath m \<noteq> [] \<Longrightarrow> getAbstractFileByPath (app_vault st) (ensureMdExtension (mocPath m))
   \<Longrightarrow> mocLinksCache st (ensureMdExtension (mocPath m)) = None
   \<Longrightarrow> read (app_vault st) (ensureMdExtension (mocPath m)) = None
   \<Longrightarrow> processMapping cfg f m st = log (FailedToReadMoc (ensureMdExtension (mocPath m))) st"
  by (simp add: processMapping_def loadMoc_def Let_def)

lemma loadMoc_facts:
  assumes "loadMoc p st = Some (d, st1)"
  shows "mocLinksCache st1 p = Some d" and "app_vault st1 = app_vault st"
    and "fileCache st1 = fileCache st" and "totalNotesAdded st1 = totalNotesAdded st"
    and "console st1 = console st"
    and "q \<noteq> p \<Longrightarrow> mocLinksCache st1 q = mocLinksCache st q"
    and "mocLinksCache st p \<noteq> None \<Longrightarrow> st1 = st"
  using assms by (auto simp: loadMoc_def Let_def split: option.splits)

lemma hub_write_failure:
  assumes "mocPath m \<noteq> []" and "p = ensureMdExtension (mocPath m)"
    and "getAbstractFileByPath (app_vault st) p"
    and "loadMoc p st = Some (d, st1)"
    and "basename f \<notin> set (links d)"
    and "p \<in> unwritable (app_vault st)"
  shows "processMapping cfg f m st =
           log (ErrorProcessingMapping (mocPath m)) (log (AddingLink (basename f) p) st1)"
  using assms loadMoc_facts(2)[OF assms(4)]
  by (simp add: processMapping_def Let_def modify_def log_def)

text \<open>Claim C9: a read error on a note, a read error on a hub and a write error on a hub
  each skip that item only. The loop goes on with the next item from a state that differs
  by the console message alone (and, for a write error, by the hub entry loaded before the
  write was tried): the vault and the counter are unchanged, the cached entry of the hub
  is the one that was consulted, without the new name. A run with a positive batch size
  always returns a state, whose counter is the count reported.\<close>

theorem failures_skip_the_item:
  "(\<forall>cfg (f::note_file) fs (st::plugin).
      extension f = ''md'' \<and> fileCache st (path f) = None \<and> read (app_vault st) (path f) = None
      \<longrightarrow> processBatch cfg (f # fs) st
            = processBatch cfg fs (log (FailedToReadFile (path f)) st))
   \<and> (\<forall>cfg (f::note_file) (m::tag_mapping) ms (st::plugin).
        mocPath m \<noteq> [] \<and> getAbstractFileByPath (app_vault st) (ensureMdExtension (mocPath m))
        \<and> mocLinksCache st (ensureMdExtension (mocPath m)) = None
        \<and> read (app_vault st) (ensureMdExtension (mocPath m)) = None
        \<longrightarrow> processTagMappings cfg f (m # ms) st
              = processTagMappings cfg f ms
                  (log (FailedToReadMoc (ensureMdExtension (mocPath m))) st))
   \<and> (\<forall>cfg (f::note_file) (m::tag_mapping) ms (st::plugin) d st1.
        mocPath m \<noteq> [] \<and> getAbstractFileByPath (app_vault st) (ensureMdExtension (mocPath m))
        \<and> loadMoc (ensureMdExtension (mocPath m)) st = Some (d, st1)
        \<and> basename f \<notin> set (links d)
        \<and> ensureMdExtension (mocPath m) \<in> unwritable (app_vault st)
        \<longrightarrow> (\<exists>st'. processTagMappings cfg f (m # ms) st = processTagMappings cfg f ms st'
                 \<and> totalNotesAdded st' = totalNotesAdded st
                 \<and> app_vault st' = app_vault st
                 \<and> fileCache st' = fileCache st
                 \<and> mocLinksCache st' = mocLinksCache st1
                 \<and> mocLinksCache st' (ensureMdExtension (mocPath m)) = Some d))
   \<and> (\<forall>(cfg::settings) st. 0 < batchSize cfg \<longrightarrow> (\<exists>st'. runAutoIndex cfg st = Some st'))"
proof (intro conjI allI impI)
  fix cfg and f :: note_file and fs and st :: plugin
  assume "extension f = ''md'' \<and> fileCache st (path f) = None
            \<and> read (app_vault st) (path f) = None"
  then show "processBatch cfg (f # fs) st
               = processBatch cfg fs (log (FailedToReadFile (path f)) st)"
    by (simp add: note_read_failure)
next
  fix cfg and f :: note_file and m :: tag_mapping and ms and st :: plugin
  assume "mocPath m \<noteq> [] \<and> getAbstractFileByPath (app_vault st) (ensureMdExtension (mocPath m))
          \<and> mocLinksCache st (ensureMdExtension (mocPath m)) = None
          \<and> read (app_vault st) (ensureMdExtension (mocPath m)) = None"
  then show "processTagMappings cfg f (m # ms) st
               = processTagMappings cfg f ms
                   (log (FailedToReadMoc (ensureMdExtension (mocPath m))) st)"
    by (simp add: hub_read_failure)
next
  fix cfg and f :: note_file and m :: tag_mapping and ms and st :: plugin and d st1
  let ?p = "ensureMdExtension (mocPath m)"
  assume a: "mocPath m \<noteq> [] \<and> getAbstractFileByPath (app_vault st) ?p
          \<and> loadMoc ?p st = Some (d, st1) \<and> basename f \<notin> set (links d)
          \<and> ?p \<in> unwritable (app_vault st)"
  let ?st' = "log (ErrorProcessingMapping (mocPath m)) (log (AddingLink (basename f) ?p) st1)"
  from a have lm: "loadMoc ?p st = Some (d, st1)" by simp
  from a have "processMapping cfg f m st = ?st'"
    using hub_write_failure[where m = m and p = ?p and st = st and d = d and ?st1.0 = st1
                              and f = f and cfg = cfg]
    by blast
  then have "processTagMappings cfg f (m # ms) st = processTagMappings cfg f ms ?st'"
    by simp
  moreover have "totalNotesAdded ?st' = totalNotesAdded st" "app_vault ?st' = app_vault st"
    "fileCache ?st' = fileCache st" "mocLinksCache ?st' = mocLinksCache st1"
    "mocLinksCache ?st' ?p = Some d"
    using loadMoc_facts[OF lm] by simp_all
  ultimately show "\<exists>st'. processTagMappings cfg f (m # ms) st = processTagMappings cfg f ms st'
                 \<and> totalNotesAdded st' = totalNotesAdded st
                 \<and> app_vault st' = app_vault st
                 \<and> fileCache st' = fileCache st
                 \<and> mocLinksCache st' = mocLinksCache st1
                 \<and> mocLinksCache st' ?p = Some d"
    by blast
next
  fix cfg :: settings and st
  assume "0 < batchSize cfg"
  then show "\<exists>st'. runAutoIndex cfg st = Some st'"
    by (simp add: runAutoIndex_total)
qed

theorem failures_skip_the_item_witness:
  "processBatch brokenSettings [noteB, noteA] brokenStart
     = processBatch brokenSettings [noteA] (log (FailedToReadFile ''B.md'') brokenStart)
   \<and> processTagMappings brokenSettings noteA [\<lparr>tag = ''phys'', mocPath = ''H''\<rparr>] brokenStart
     = log (FailedToReadMoc ''H.md'') brokenStart
   \<and> (\<exists>st'. processTagMappings brokenSettings noteA [\<lparr>tag = ''chem'', mocPath = ''W''\<rparr>]
               brokenStart = st'
          \<and> totalNotesAdded st' = 0
          \<and> app_vault st' = app_vault brokenStart
          \<and> mocLinksCache st' ''W.md'' = Some \<lparr>mocContent = ''## Links'', links = []\<rparr>)
   \<and> (\<exists>st'. runAutoIndex brokenSettings brokenStart = Some st')
   \<and> totalNotesAdded (the (runAutoIndex brokenSettings brokenStart)) = 1
   \<and> contents (app_vault (the (runAutoIndex brokenSettings brokenStart))) ''MOC.md''
       = Some ''## Links\<newline>- [[A]]\<newline>''"
proof -
  note T = failures_skip_the_item
  have eH: "ensureMdExtension ''H'' = ''H.md''" and eW: "ensureMdExtension ''W'' = ''W.md''"
    by code_simp+
  have 1: "processBatch brokenSettings [noteB, noteA] brokenStart
     = processBatch brokenSettings [noteA] (log (FailedToReadFile ''B.md'') brokenStart)"
    using T[THEN conjunct1, rule_format, of noteB brokenStart brokenSettings "[noteA]"]
    by (simp add: noteB_def brokenStart_def read_def)
  have 2: "processTagMappings brokenSettings noteA [\<lparr>tag = ''phys'', mocPath = ''H''\<rparr>] brokenStart
     = log (FailedToReadMoc ''H.md'') brokenStart"
    using T[THEN conjunct2, THEN conjunct1, rule_format,
            of "\<lparr>tag = ''phys'', mocPath = ''H''\<rparr>" brokenStart brokenSettings noteA "[]"]
    by (simp add: eH brokenStart_def read_def getAbstractFileByPath_def)
  let ?d = "\<lparr>mocContent = ''## Links'', links = []\<rparr>"
  let ?st1 = "brokenStart\<lparr>mocLinksCache := (mocLinksCache brokenStart)(''W.md'' \<mapsto> ?d)\<rparr>"
  have ex: "extractExistingLinks ''## Links'' = []" by code_simp
  have lm: "loadMoc ''W.md'' brokenStart = Some (?d, ?st1)"
    by (simp add: loadMoc_def brokenStart_def read_def ex Let_def)
  have 3: "\<exists>st'. processTagMappings brokenSettings noteA [\<lparr>tag = ''chem'', mocPath = ''W''\<rparr>]
               brokenStart = st'
          \<and> totalNotesAdded st' = 0
          \<and> app_vault st' = app_vault brokenStart
          \<and> mocLinksCache st' ''W.md'' = Some ?d"
    using T[THEN conjunct2, THEN conjunct2, THEN conjunct1, rule_format,
            of "\<lparr>tag = ''chem'', mocPath = ''W''\<rparr>" brokenStart ?d ?st1 noteA brokenSettings "[]"]
      lm
    by (simp add: eW getAbstractFileByPath_def) (simp add: brokenStart_def)
  have 4: "\<exists>st'. runAutoIndex brokenSettings brokenStart = Some st'"
    using T[THEN conjunct2, THEN conjunct2, THEN conjunct2, rule_format, of brokenSettings brokenStart]
    by (simp add: brokenSettings_def)
  have 5: "totalNotesAdded (the (runAutoIndex brokenSettings brokenStart)) = 1"
    by code_simp
  have 6: "contents (app_vault (the (runAutoIndex brokenSettings brokenStart))) ''MOC.md''
       = Some ''## Links\<newline>- [[A]]\<newline>''"
    by code_simp
  from 1 2 3 4 5 6 show ?thesis by blast
qed

section \<open>Within one run\<close>

lemma insertions_append: "insertions (xs @ ys) = insertions xs @ insertions ys"
  by (induction xs rule: insertions.induct) simp_all

lemma tracked_log:
  "tracked base st \<Longrightarrow> insertions [e] = [] \<Longrightarrow> tracked base (log e st)"
  unfolding tracked_def
  by (auto simp: insertions_append)

lemma tracked_loadMoc:
  assumes "tracked base st" and "loadMoc p st = Some (d, st1)"
  shows "tracked base st1"
proof (cases "mocLinksCache st p")
  case None
  from assms(1) obtain new where n: "console st = base @ new" "distinct (insertions new)"
     "totalNotesAdded st = length (insertions new)"
     "\<forall>(p, f) \<in> set (insertions new). \<exists>d. mocLinksCache st p = Some d \<and> f \<in> set (links d)"
    unfolding tracked_def by blast
  have "\<forall>(q, f) \<in> set (insertions new). \<exists>d. mocLinksCache st1 q = Some d \<and> f \<in> set (links d)"
  proof (clarify)
    fix q f assume "(q, f) \<in> set (insertions new)"
    with n(4) obtain d' where d': "mocLinksCache st q = Some d'" "f \<in> set (links d')" by blast
    with None have "q \<noteq> p" by auto
    with d' loadMoc_facts(6)[OF assms(2)] show "\<exists>d. mocLinksCache st1 q = Some d \<and> f \<in> set (links d)"
      by simp
  qed
  with n loadMoc_facts(4,5)[OF assms(2)] show ?thesis
    unfolding tracked_def by auto
next
  case (Some a)
  then have "st1 = st" using loadMoc_facts(7)[OF assms(2)] by simp
  with assms(1) show ?thesis by simp
qed

lemma tracked_processMapping:
  assumes "tracked base st"
  shows "tracked base (processMapping cfg file m st)"
proof -
  let ?p = "ensureMdExtension (mocPath m)"
  show ?thesis
  proof (cases "mocPath m = [] \<or> \<not> getAbstractFileByPath (app_vault st) ?p")
    case True
    then show ?thesis using assms by (auto simp: processMapping_def Let_def intro: tracked_log)
  next
    case found: False
    show ?thesis
    proof (cases "loadMoc ?p st")
      case None
      then show ?thesis using assms found
        by (auto simp: processMapping_def Let_def intro: tracked_log)
    next
      case (Some r)
      obtain d st1 where r: "r = (d, st1)" by (cases r)
      note lm = Some[unfolded r]
      have t1: "tracked base st1" by (rule tracked_loadMoc[OF assms lm])
      show ?thesis
      proof (cases "basename file \<in> set (links d)")
        case True
        then show ?thesis using found lm t1 by (simp add: processMapping_def Let_def)
      next
        case fresh: False
        let ?f = "basename file"
        let ?st2 = "log (AddingLink ?f ?p) st1"
        have t2: "tracked base ?st2" using t1 by (rule tracked_log) simp
        let ?upd = "addLinkToMOC (mocContent d)
             (replaceString (appendFormat cfg) ''{{fileName}}'' ?f)
             (if sectionHeading cfg = [] then ''## Links'' else sectionHeading cfg)"
        show ?thesis
        proof (cases "modify (app_vault ?st2) ?p ?upd")
          case None
          then have "processMapping cfg file m st = log (ErrorProcessingMapping (mocPath m)) ?st2"
            using found lm fresh by (simp add: processMapping_def Let_def)
          then show ?thesis using t2 by (simp add: tracked_log)
        next
          case (Some v)
          let ?d' = "\<lparr>mocContent = ?upd, links = links d @ [?f]\<rparr>"
          let ?res = "processMapping cfg file m st"
          have res: "console ?res = console st1 @ [AddingLink ?f ?p, AddedLink ?f ?p (totalNotesAdded st1 + 1)]"
            "totalNotesAdded ?res = totalNotesAdded st1 + 1"
            "mocLinksCache ?res = (mocLinksCache st1)(?p \<mapsto> ?d')"
            using found lm fresh Some by (simp_all add: processMapping_def Let_def log_def)
          from t1 obtain new where n: "console st1 = base @ new" "distinct (insertions new)"
            "totalNotesAdded st1 = length (insertions new)"
            "\<forall>(p, f) \<in> set (insertions new). \<exists>d. mocLinksCache st1 p = Some d \<and> f \<in> set (links d)"
            unfolding tracked_def by blast
          let ?new = "new @ [AddingLink ?f ?p, AddedLink ?f ?p (totalNotesAdded st1 + 1)]"
          have ins: "insertions ?new = insertions new @ [(?p, ?f)]"
            by (simp add: insertions_append)
          have notin: "(?p, ?f) \<notin> set (insertions new)"
          proof
            assume "(?p, ?f) \<in> set (insertions new)"
            with n(4) obtain d0 where "mocLinksCache st1 ?p = Some d0" "?f \<in> set (links d0)" by blast
            with loadMoc_facts(1)[OF lm] fresh show False by simp
          qed
          have cached: "\<forall>(q, f) \<in> set (insertions ?new). \<exists>d. mocLinksCache ?res q = Some d \<and> f \<in> set (links d)"
          proof clarify
            fix q f assume qf: "(q, f) \<in> set (insertions ?new)"
            show "\<exists>d. mocLinksCache ?res q = Some d \<and> f \<in> set (links d)"
            proof (cases "q = ?p")
              case True
              have "f \<in> set (links d) \<or> f = ?f"
              proof (cases "(q, f) \<in> set (insertions new)")
                case True
                with n(4) obtain d0 where "mocLinksCache st1 q = Some d0" "f \<in> set (links d0)" by blast
                with loadMoc_facts(1)[OF lm] \<open>q = ?p\<close> show ?thesis by simp
              next
                case False
                with qf ins show ?thesis by auto
              qed
              then show ?thesis using True res(3) by auto
            next
              case False
              with qf ins have "(q, f) \<in> set (insertions new)" by auto
              with n(4) obtain d0 where "mocLinksCache st1 q = Some d0" "f \<in> set (links d0)" by blast
              then show ?thesis using False res(3) by auto
            qed
          qed
          have "console ?res = base @ ?new" using res(1) n(1) by simp
          moreover have "distinct (insertions ?new)" using ins n(2) notin by simp
          moreover have "totalNotesAdded ?res = length (insertions ?new)" using res(2) n(3) ins by simp
          ultimately show ?thesis using cached unfolding tracked_def by blast
        qed
      qed
    qed
  qed
qed

lemma tracked_processTagMappings:
  "tracked base st \<Longrightarrow> tracked base (processTagMappings cfg file ms st)"
  by (induction ms arbitrary: st) (simp_all add: tracked_processMapping)

lemma tracked_processTags:
  "tracked base st \<Longrightarrow> tracked base (processTags cfg file ts st)"
  by (induction ts arbitrary: st) (simp_all add: tracked_processTagMappings Let_def)

lemma tracked_loadFile:
  "tracked base st \<Longrightarrow> loadFile file st = Some (d, st1) \<Longrightarrow> tracked base st1"
  by (auto simp: loadFile_def tracked_def Let_def split: option.splits)

lemma tracked_processFile:
  "tracked base st \<Longrightarrow> tracked base (processFile cfg file st)"
  by (auto simp: processFile_def tracked_log tracked_processTags split: option.splits
           dest: tracked_loadFile)

lemma tracked_processBatch:
  "tracked base st \<Longrightarrow> tracked base (processBatch cfg files st)"
  by (induction files arbitrary: st) (simp_all add: tracked_processFile)

lemma tracked_batchLoop:
  assumes "batchLoop cfg files i st = Some st'"
  shows "tracked base st \<longrightarrow> tracked base st'"
proof (rule batchLoop.raw_induct
        [where P = "\<lambda>cfg files i st st'. tracked base st \<longrightarrow> tracked base st'", OF _ assms],
       goal_cases)
  case (1 loop cfg files i st st')
  show ?case
  proof (cases "i < length files")
    case True
    with 1(2) have "loop cfg files (i + batchSize cfg)
        (processBatch cfg (take (batchSize cfg) (drop i files)) st) = Some st'" by simp
    from 1(1)[OF this] show ?thesis by (simp add: tracked_processBatch)
  next
    case False
    with 1(2) show ?thesis by simp
  qed
qed

lemma run_insertions_distinct:
  assumes "runAutoIndex cfg st = Some st'"
  shows "\<exists>new. console st' = console st @ new \<and> distinct (insertions new)
           \<and> totalNotesAdded st' = length (insertions new)"
proof -
  let ?st1 = "st\<lparr>totalNotesAdded := 0, mocLinksCache := Map.empty\<rparr>"
  have "tracked (console st) ?st1" by (simp add: tracked_def)
  moreover have "batchLoop cfg (getFilesInPath (app_vault st) (searchPath cfg)) 0 ?st1 = Some st'"
    using assms by (simp add: runAutoIndex_def Let_def searchPath_def)
  ultimately have "tracked (console st) st'" using tracked_batchLoop by blast

  then show ?thesis unfolding tracked_def by blast
qed

lemma cached_link_skips:
  assumes "mocPath m \<noteq> []"
    and "getAbstractFileByPath (app_vault s) (ensureMdExtension (mocPath m))"
    and "loadMoc (ensureMdExtension (mocPath m)) s = Some (d, s1)"
    and "basename f \<in> set (links d)"
  shows "processMapping cfg f m s = s1"
  using assms by (simp add: processMapping_def Let_def)

lemma insertion_refreshes_cache:
  assumes "mocPath m \<noteq> []" and "p = ensureMdExtension (mocPath m)"
    and "getAbstractFileByPath (app_vault s) p"
    and "loadMoc p s = Some (d, s1)"
    and "basename f \<notin> set (links d)"
    and "p \<notin> unwritable (app_vault s)"
    and "u = addLinkToMOC (mocContent d)
               (replaceString (appendFormat cfg) ''{{fileName}}'' (basename f))
               (if sectionHeading cfg = [] then ''## Links'' else sectionHeading cfg)"
  shows "mocLinksCache (processMapping cfg f m s) p
           = Some \<lparr>mocContent = u, links = links d @ [basename f]\<rparr>"
    and "contents (app_vault (processMapping cfg f m s)) p = Some u"
    and "totalNotesAdded (processMapping cfg f m s) = totalNotesAdded s + 1"
  using assms loadMoc_facts(2,4)[OF assms(4)]
  by (simp_all add: processMapping_def Let_def modify_def log_def)

text \<open>Claim C2: within one run a hub never receives two insertions for the same note
  name. The console written by a run holds at most one \<^verbatim>\<open>Added link\<close> message for every
  pair of hub path and note name, and the counter is the number of these messages. This
  rests on the two steps of \<^verbatim>\<open>processTagMappings\<close>: a name found among the cached links of
  the hub is skipped without a write, and a successful write puts the new text and the
  links with the name appended into the cache at once.\<close>

theorem one_insertion_per_hub_and_note:
  fixes f :: note_file and m :: tag_mapping and s :: plugin
  shows
  "(runAutoIndex cfg st = Some st' \<longrightarrow>
      (\<exists>new. console st' = console st @ new \<and> distinct (insertions new)
           \<and> totalNotesAdded st' = length (insertions new)))
   \<and> (mocPath m \<noteq> [] \<and> getAbstractFileByPath (app_vault s) (ensureMdExtension (mocPath m))
        \<and> loadMoc (ensureMdExtension (mocPath m)) s = Some (d, s1) \<longrightarrow>
        (basename f \<in> set (links d) \<longrightarrow> processMapping cfg f m s = s1)
        \<and> (basename f \<notin> set (links d)
             \<and> ensureMdExtension (mocPath m) \<notin> unwritable (app_vault s) \<longrightarrow>
             mocLinksCache (processMapping cfg f m s) (ensureMdExtension (mocPath m))
               = Some \<lparr>mocContent =
                         addLinkToMOC (mocContent d)
                           (replaceString (appendFormat cfg) ''{{fileName}}'' (basename f))
                           (if sectionHeading cfg = [] then ''## Links''
                            else sectionHeading cfg),
                       links = links d @ [basename f]\<rparr>
             \<and> contents (app_vault (processMapping cfg f m s)) (ensureMdExtension (mocPath m))
               = Some (addLinkToMOC (mocContent d)
                           (replaceString (appendFormat cfg) ''{{fileName}}'' (basename f))
                           (if sectionHeading cfg = [] then ''## Links''
                            else sectionHeading cfg))
             \<and> totalNotesAdded (processMapping cfg f m s) = totalNotesAdded s + 1))"
proof (intro conjI impI)
  assume "runAutoIndex cfg st = Some st'"
  then show "\<exists>new. console st' = console st @ new \<and> distinct (insertions new)
           \<and> totalNotesAdded st' = length (insertions new)"
    by (rule run_insertions_distinct)
next
  assume "mocPath m \<noteq> [] \<and> getAbstractFileByPath (app_vault s) (ensureMdExtension (mocPath m))
        \<and> loadMoc (ensureMdExtension (mocPath m)) s = Some (d, s1)"
    and "basename f \<in> set (links d)"
  then show "processMapping cfg f m s = s1"
    by (intro cached_link_skips) simp_all
next
  assume a: "mocPath m \<noteq> [] \<and> getAbstractFileByPath (app_vault s) (ensureMdExtension (mocPath m))
        \<and> loadMoc (ensureMdExtension (mocPath m)) s = Some (d, s1)"
    and b: "basename f \<notin> set (links d)
             \<and> ensureMdExtension (mocPath m) \<notin> unwritable (app_vault s)"
  note r = insertion_refreshes_cache[where m = m and s = s and d = d and ?s1.0 = s1
             and f = f and cfg = cfg, OF _ refl _ _ _ _ refl]
  from a b show "mocLinksCache (processMapping cfg f m s) (ensureMdExtension (mocPath m))
               = Some \<lparr>mocContent =
                         addLinkToMOC (mocContent d)
                           (replaceString (appendFormat cfg) ''{{fileName}}'' (basename f))
                           (if sectionHeading cfg = [] then ''## Links''
                            else sectionHeading cfg),
                       links = links d @ [basename f]\<rparr>"
    by (intro r(1)) simp_all
  from a b show "contents (app_vault (processMapping cfg f m s)) (ensureMdExtension (mocPath m))
               = Some (addLinkToMOC (mocContent d)
                           (replaceString (appendFormat cfg) ''{{fileName}}'' (basename f))
                           (if sectionHeading cfg = [] then ''## Links''
                            else sectionHeading cfg))"
    by (intro r(2)) simp_all
  from a b show "totalNotesAdded (processMapping cfg f m s) = totalNotesAdded s + 1"
    by (intro r(3)) simp_all
qed

theorem one_insertion_per_hub_and_note_witness:
  "runAutoIndex repeatSettings repeatStart = Some (the (runAutoIndex repeatSettings repeatStart))
   \<and> (\<exists>new. console (the (runAutoIndex repeatSettings repeatStart))
               = console repeatStart @ new
          \<and> distinct (insertions new)
          \<and> totalNotesAdded (the (runAutoIndex repeatSettings repeatStart))
              = length (insertions new))
   \<and> insertions (console (the (runAutoIndex repeatSettings repeatStart))) = [(''MOC.md'', ''A'')]
   \<and> mocLinksCache (processMapping repeatSettings noteA \<lparr>tag = ''maths'', mocPath = ''MOC''\<rparr>
                       repeatStart) ''MOC.md''
       = Some \<lparr>mocContent = ''## Links\<newline>- [[A]]\<newline>'', links = [''A'']\<rparr>
   \<and> processMapping repeatSettings noteA \<lparr>tag = ''maths'', mocPath = ''MOC''\<rparr>
         (processMapping repeatSettings noteA \<lparr>tag = ''maths'', mocPath = ''MOC''\<rparr> repeatStart)
       = processMapping repeatSettings noteA \<lparr>tag = ''maths'', mocPath = ''MOC''\<rparr> repeatStart"
proof -
  let ?m = "\<lparr>tag = ''maths'', mocPath = ''MOC''\<rparr>"
  let ?run = "the (runAutoIndex repeatSettings repeatStart)"
  let ?d0 = "\<lparr>mocContent = ''## Links\<newline>'', links = []\<rparr>"
  let ?s10 = "repeatStart\<lparr>mocLinksCache := (mocLinksCache repeatStart)(''MOC.md'' \<mapsto> ?d0)\<rparr>"
  let ?d2 = "\<lparr>mocContent = ''## Links\<newline>- [[A]]\<newline>'', links = [''A'']\<rparr>"
  let ?s2 = "processMapping repeatSettings noteA ?m repeatStart"
  have r: "runAutoIndex repeatSettings repeatStart = Some ?run"
    by (simp add: runAutoIndex_total repeatSettings_def)
  have i: "insertions (console ?run) = [(''MOC.md'', ''A'')]"
    by code_simp
  from one_insertion_per_hub_and_note[where cfg = repeatSettings and st = repeatStart and st' = ?run, THEN conjunct1] r
  have a: "\<exists>new. console ?run = console repeatStart @ new \<and> distinct (insertions new)
          \<and> totalNotesAdded ?run = length (insertions new)"
    by blast
  have e: "ensureMdExtension ''MOC'' = ''MOC.md''" by code_simp
  have x: "extractExistingLinks ''## Links\<newline>'' = []" by code_simp
  have l: "replaceString (appendFormat repeatSettings) ''{{fileName}}'' ''A'' = ''- [[A]]\<newline>''"
    by code_simp
  have u: "addLinkToMOC ''## Links\<newline>'' ''- [[A]]\<newline>'' ''## Links'' = ''## Links\<newline>- [[A]]\<newline>''"
    by code_simp
  have h: "sectionHeading repeatSettings = ''## Links''" by (simp add: repeatSettings_def)
  have g0: "getAbstractFileByPath (app_vault repeatStart) ''MOC.md''"
    by (simp add: getAbstractFileByPath_def repeatStart_def)
  have lm0: "loadMoc ''MOC.md'' repeatStart = Some (?d0, ?s10)"
    by (simp add: loadMoc_def repeatStart_def read_def x Let_def)
  have w0: "''MOC.md'' \<notin> unwritable (app_vault repeatStart)"
    by (simp add: repeatStart_def)
  from one_insertion_per_hub_and_note[where m = ?m and s = repeatStart and d = ?d0 and ?s1.0 = ?s10 and f = noteA
             and cfg = repeatSettings, THEN conjunct2]
    g0 lm0 w0
  have b: "mocLinksCache ?s2 ''MOC.md'' = Some ?d2"
    and c: "contents (app_vault ?s2) ''MOC.md'' = Some ''## Links\<newline>- [[A]]\<newline>''"
    by (simp_all add: e l u h noteA_def)
  have g2: "getAbstractFileByPath (app_vault ?s2) ''MOC.md''"
    using c by (simp add: getAbstractFileByPath_def)
  have lm2: "loadMoc ''MOC.md'' ?s2 = Some (?d2, ?s2)"
    using b by (simp add: loadMoc_def)
  from one_insertion_per_hub_and_note[where m = ?m and s = ?s2 and d = ?d2 and ?s1.0 = ?s2 and f = noteA
             and cfg = repeatSettings, THEN conjunct2]
    g2 lm2
  have d: "processMapping repeatSettings noteA ?m ?s2 = ?s2"
    by (simp add: e noteA_def)
  from r a i b d show ?thesis by blast
qed

section \<open>A run over a vault that is already linked\<close>

lemma alreadyLinked_iff:
  "alreadyLinked cfg st \<longleftrightarrow>
     (\<forall>f \<in> set (getFilesInPath (app_vault st) (searchPath cfg)). fileLinked cfg st f)"
  unfolding alreadyLinked_def selected_def fileLinked_def hubLinked_def list_all_iff
  by (auto split: if_splits) 

lemma seenTags_cong:
  "fileCache st' = fileCache st \<Longrightarrow> app_vault st' = app_vault st \<Longrightarrow> seenTags st' g = seenTags st g"
  by (simp add: seenTags_def split: option.splits)

lemma seenTags_log [simp]: "seenTags (log e st) g = seenTags st g"
  by (rule seenTags_cong) simp_all

lemma quiet_log: "quiet st \<Longrightarrow> quiet (log e st)"
  by (simp add: quiet_def)

lemma quiet_processMapping:
  assumes "quiet st" and "hubLinked (app_vault st) file m"
  shows "app_vault (processMapping cfg file m st) = app_vault st
         \<and> fileCache (processMapping cfg file m st) = fileCache st
         \<and> quiet (processMapping cfg file m st)"
proof -
  let ?p = "ensureMdExtension (mocPath m)"
  show ?thesis
  proof (cases "mocPath m = [] \<or> \<not> getAbstractFileByPath (app_vault st) ?p")
    case True
    then show ?thesis using assms(1) by (auto simp: processMapping_def Let_def quiet_log)
  next
    case found: False
    show ?thesis
    proof (cases "loadMoc ?p st")
      case None
      then show ?thesis using assms(1) found
        by (auto simp: processMapping_def Let_def quiet_log)
    next
      case (Some r)
      obtain d st1 where r: "r = (d, st1)" by (cases r)
      note lm = Some[unfolded r]
      have in_links: "basename file \<in> set (links d)"
      proof (cases "mocLinksCache st ?p")
        case None
        with lm obtain c where c: "read (app_vault st) ?p = Some c"
          "d = \<lparr>mocContent = c, links = extractExistingLinks c\<rparr>"
          by (auto simp: loadMoc_def Let_def split: option.splits)
        with assms(2) found show ?thesis by (simp add: hubLinked_def)
      next
        case (Some d0)
        with lm have "d0 = d" by (simp add: loadMoc_def)
        with Some assms(1) have "read (app_vault st) ?p = Some (mocContent d)"
          "links d = extractExistingLinks (mocContent d)"
          by (auto simp: quiet_def)
        with assms(2) found show ?thesis by (simp add: hubLinked_def)
      qed
      have q1: "quiet st1"
        using assms(1) lm
        by (auto simp: loadMoc_def Let_def quiet_def split: option.splits if_splits)
      have "processMapping cfg file m st = st1"
        using found lm in_links by (simp add: processMapping_def Let_def)
      then show ?thesis
        using q1 loadMoc_facts(2,3)[OF lm] by simp
    qed
  qed
qed

lemma quiet_processTagMappings:
  "quiet st \<Longrightarrow> \<forall>m \<in> set ms. hubLinked (app_vault st) file m \<Longrightarrow>
   app_vault (processTagMappings cfg file ms st) = app_vault st
   \<and> fileCache (processTagMappings cfg file ms st) = fileCache st
   \<and> quiet (processTagMappings cfg file ms st)"
proof (induction ms arbitrary: st)
  case Nil
  then show ?case by simp
next
  case (Cons m ms)
  from Cons.prems have "hubLinked (app_vault st) file m" by simp
  from quiet_processMapping[OF Cons.prems(1) this, of cfg]
  have s: "app_vault (processMapping cfg file m st) = app_vault st"
    "fileCache (processMapping cfg file m st) = fileCache st"
    "quiet (processMapping cfg file m st)" by simp_all
  from Cons.prems(2) s(1) have "\<forall>m' \<in> set ms. hubLinked (app_vault (processMapping cfg file m st)) file m'"
    by simp
  from Cons.IH[OF s(3) this] s show ?case by simp
qed

lemma quiet_processTags:
  "quiet st \<Longrightarrow>
   \<forall>t \<in> set ts. \<forall>m \<in> set (matchingMappings (tagMappings cfg) t). hubLinked (app_vault st) file m \<Longrightarrow>
   app_vault (processTags cfg file ts st) = app_vault st
   \<and> fileCache (processTags cfg file ts st) = fileCache st
   \<and> quiet (processTags cfg file ts st)"
proof (induction ts arbitrary: st)
  case Nil
  then show ?case by simp
next
  case (Cons t ts)
  let ?mm = "matchingMappings (tagMappings cfg) t"
  let ?st' = "processTagMappings cfg file ?mm st"
  from Cons.prems have "\<forall>m \<in> set ?mm. hubLinked (app_vault st) file m" by simp
  from quiet_processTagMappings[OF Cons.prems(1) this, of cfg]
  have s: "app_vault ?st' = app_vault st" "fileCache ?st' = fileCache st" "quiet ?st'" by simp_all
  from Cons.prems(2) s(1)
  have "\<forall>t \<in> set ts. \<forall>m \<in> set (matchingMappings (tagMappings cfg) t). hubLinked (app_vault ?st') file m"
    by simp
  from Cons.IH[OF s(3) this] s
  have a: "app_vault (processTags cfg file ts ?st') = app_vault st
     \<and> fileCache (processTags cfg file ts ?st') = fileCache st
     \<and> quiet (processTags cfg file ts ?st')" by simp
  from Cons.prems(2)
  have "\<forall>t \<in> set ts. \<forall>m \<in> set (matchingMappings (tagMappings cfg) t). hubLinked (app_vault st) file m"
    by simp
  from Cons.IH[OF Cons.prems(1) this]
  have b: "app_vault (processTags cfg file ts st) = app_vault st
     \<and> fileCache (processTags cfg file ts st) = fileCache st
     \<and> quiet (processTags cfg file ts st)" .
  show ?case
  proof (cases "?mm = []")
    case True
    then show ?thesis using b by simp
  next
    case False
    then show ?thesis using a by (simp add: Let_def)
  qed
qed

lemma loadFile_facts:
  assumes "loadFile file st = Some (d, st1)"
  shows "app_vault st1 = app_vault st" and "mocLinksCache st1 = mocLinksCache st"
    and "totalNotesAdded st1 = totalNotesAdded st" and "console st1 = console st"
    and "tags d = seenTags st file"
    and "seenTags st1 g = seenTags st g"
proof -
  show "app_vault st1 = app_vault st" "mocLinksCache st1 = mocLinksCache st"
    "totalNotesAdded st1 = totalNotesAdded st" "console st1 = console st"
    "tags d = seenTags st file"
    using assms by (auto simp: loadFile_def Let_def seenTags_def split: option.splits)
  show "seenTags st1 g = seenTags st g"
  proof (cases "fileCache st (path file)")
    case (Some a)
    with assms show ?thesis by (simp add: loadFile_def)
  next
    case None
    with assms obtain c where c: "read (app_vault st) (path file) = Some c"
      "st1 = st\<lparr>fileCache := (fileCache st)(path file \<mapsto> \<lparr>content = c, tags = extractTags c\<rparr>)\<rparr>"
      by (auto simp: loadFile_def Let_def split: option.splits)
    show ?thesis
    proof (cases "path g = path file")
      case True
      with None c show ?thesis by (simp add: seenTags_def)
    next
      case False
      with c show ?thesis by (simp add: seenTags_def split: option.splits)
    qed
  qed
qed

lemma quiet_processFile:
  assumes "quiet st" and "fileLinked cfg st file"
  shows "app_vault (processFile cfg file st) = app_vault st
         \<and> quiet (processFile cfg file st)
         \<and> (\<forall>g. seenTags (processFile cfg file st) g = seenTags st g)"
proof (cases "extension file = ''md''")
  case False
  then show ?thesis using assms(1) by (simp add: processFile_def)
next
  case md: True
  show ?thesis
  proof (cases "loadFile file st")
    case None
    then show ?thesis using assms(1) md
      by (simp add: processFile_def quiet_log)
  next
    case (Some r)
    obtain d st1 where r: "r = (d, st1)" by (cases r)
    note lf = Some[unfolded r]
    have f1: "app_vault st1 = app_vault st" "mocLinksCache st1 = mocLinksCache st"
      "totalNotesAdded st1 = totalNotesAdded st" "tags d = seenTags st file"
      "\<forall>g. seenTags st1 g = seenTags st g"
      using loadFile_facts[OF lf] by simp_all
    have q1: "quiet st1" using assms(1) f1 by (simp add: quiet_def)
    have "\<forall>t \<in> set (tags d). \<forall>m \<in> set (matchingMappings (tagMappings cfg) t).
            hubLinked (app_vault st1) file m"
      using assms(2) md f1 by (simp add: fileLinked_def)
    from quiet_processTags[OF q1 this]
    have s: "app_vault (processTags cfg file (tags d) st1) = app_vault st1"
      "fileCache (processTags cfg file (tags d) st1) = fileCache st1"
      "quiet (processTags cfg file (tags d) st1)" by simp_all
    have st: "\<forall>g. seenTags (processTags cfg file (tags d) st1) g = seenTags st1 g"
      using seenTags_cong[OF s(2) s(1)] by simp
    have "processFile cfg file st = (if tags d = [] then st1 else processTags cfg file (tags d) st1)"
      using md lf by (simp add: processFile_def)
    then show ?thesis using s st f1 q1 by (cases "tags d = []") simp_all
  qed
qed

lemma quiet_processBatch:
  "quiet st \<Longrightarrow> \<forall>f \<in> set files. fileLinked cfg st f \<Longrightarrow>
   app_vault (processBatch cfg files st) = app_vault st \<and> quiet (processBatch cfg files st)"
proof (induction files arbitrary: st)
  case Nil
  then show ?case by simp
next
  case (Cons f fs)
  let ?st' = "processFile cfg f st"
  from Cons.prems have "fileLinked cfg st f" by simp
  from quiet_processFile[OF Cons.prems(1) this]
  have s: "app_vault ?st' = app_vault st" "quiet ?st'" "\<forall>g. seenTags ?st' g = seenTags st g"
    by simp_all
  have "\<forall>g \<in> set fs. fileLinked cfg ?st' g"
    using Cons.prems(2) s by (simp add: fileLinked_def)
  from Cons.IH[OF s(2) this] s show ?case by simp
qed

lemma rerun_noop:
  assumes "0 < batchSize cfg" and "alreadyLinked cfg st"
  shows "\<exists>st'. runAutoIndex cfg st = Some st' \<and> app_vault st' = app_vault st
            \<and> totalNotesAdded st' = 0"
proof -
  let ?st1 = "st\<lparr>totalNotesAdded := 0, mocLinksCache := Map.empty\<rparr>"
  let ?files = "getFilesInPath (app_vault st) (searchPath cfg)"
  have q: "quiet ?st1" by (simp add: quiet_def)
  have "\<forall>f \<in> set ?files. fileLinked cfg st f"
    using assms(2) by (simp add: alreadyLinked_iff)
  moreover have "\<forall>g. seenTags ?st1 g = seenTags st g"
    by (intro allI seenTags_cong) simp_all
  ultimately have "\<forall>f \<in> set ?files. fileLinked cfg ?st1 f"
    by (simp add: fileLinked_def)
  from quiet_processBatch[OF q this]
  show ?thesis
    by (simp add: runAutoIndex_total[OF assms(1)] quiet_def)
qed

text \<open>Claim C1: when every note selected by the mappings is already among the links
  extracted from its hub, a full run changes no hub text and ends with the counter at 0.
  In the end-to-end scenario the first run turns \<^verbatim>\<open>MOC.md\<close> into the heading followed by
  the link to \<^verbatim>\<open>A\<close> and counts 1; the second run changes nothing and counts 0.\<close>

theorem rerun_changes_nothing:
  "(\<forall>(cfg::settings) st. 0 < batchSize cfg \<and> alreadyLinked cfg st \<longrightarrow>
      (\<exists>st'. runAutoIndex cfg st = Some st'
          \<and> contents (app_vault st') = contents (app_vault st)
          \<and> totalNotesAdded st' = 0))
   \<and> (\<exists>s1 s2. runAutoIndex scenarioSettings scenarioStart = Some s1
          \<and> contents (app_vault s1) ''MOC.md'' = Some ''## Links\<newline>- [[A]]\<newline>''
          \<and> totalNotesAdded s1 = 1
          \<and> runAutoIndex scenarioSettings s1 = Some s2
          \<and> contents (app_vault s2) = contents (app_vault s1)
          \<and> totalNotesAdded s2 = 0)"
proof (intro conjI allI impI)
  fix cfg :: settings and st
  assume "0 < batchSize cfg \<and> alreadyLinked cfg st"
  then obtain st' where "runAutoIndex cfg st = Some st'" "app_vault st' = app_vault st"
    "totalNotesAdded st' = 0"
    using rerun_noop by blast
  then show "\<exists>st'. runAutoIndex cfg st = Some st'
          \<and> contents (app_vault st') = contents (app_vault st) \<and> totalNotesAdded st' = 0"
    by auto
next
  let ?s1 = "the (runAutoIndex scenarioSettings scenarioStart)"
  have b: "0 < batchSize scenarioSettings" by (simp add: scenarioSettings_def)
  have r1: "runAutoIndex scenarioSettings scenarioStart = Some ?s1"
    by (simp add: runAutoIndex_total[OF b])
  have c1: "contents (app_vault ?s1) ''MOC.md'' = Some ''## Links\<newline>- [[A]]\<newline>''"
    by code_simp
  have n1: "totalNotesAdded ?s1 = 1" by code_simp
  have "alreadyLinked scenarioSettings ?s1" by code_simp
  from rerun_noop[OF b this] obtain s2 where "runAutoIndex scenarioSettings ?s1 = Some s2"
    "app_vault s2 = app_vault ?s1" "totalNotesAdded s2 = 0" by blast
  with r1 c1 n1 show "\<exists>s1 s2. runAutoIndex scenarioSettings scenarioStart = Some s1
          \<and> contents (app_vault s1) ''MOC.md'' = Some ''## Links\<newline>- [[A]]\<newline>''
          \<and> totalNotesAdded s1 = 1
          \<and> runAutoIndex scenarioSettings s1 = Some s2
          \<and> contents (app_vault s2) = contents (app_vault s1)
          \<and> totalNotesAdded s2 = 0"
    by auto
qed

theorem rerun_changes_nothing_witness:
  "0 < batchSize scenarioSettings
   \<and> alreadyLinked scenarioSettings (the (runAutoIndex scenarioSettings scenarioStart))
   \<and> (\<exists>st'. runAutoIndex scenarioSettings (the (runAutoIndex scenarioSettings scenarioStart))
               = Some st'
          \<and> contents (app_vault st')
              = contents (app_vault (the (runAutoIndex scenarioSettings scenarioStart)))
          \<and> totalNotesAdded st' = 0)"
proof -
  have b: "0 < batchSize scenarioSettings" by (simp add: scenarioSettings_def)
  have a: "alreadyLinked scenarioSettings (the (runAutoIndex scenarioSettings scenarioStart))"
    by code_simp
  from rerun_changes_nothing[THEN conjunct1, rule_format,
         of scenarioSettings "the (runAutoIndex scenarioSettings scenarioStart)"] a b
  show ?thesis by blast
qed

section \<open>Mapping resolution\<close>

lemma stripHash_hash: "stripHash (CHR ''#'' # x) = x"
  by (simp add: stripHash_def)

lemma stripHash_plain: "\<not> prefix ''#'' x \<Longrightarrow> stripHash x = x"
  by (simp add: stripHash_def)

text \<open>Claim C8: resolution returns exactly the mappings whose tag equals the given tag
  once one leading \<^verbatim>\<open>#\<close> is dropped on either side, in the order of the table; the
  comparison is equality of strings, so it is case-sensitive and never partial. Nothing
  matching gives the empty list. A mapping for \<^verbatim>\<open>maths\<close> is found by \<^verbatim>\<open>#maths\<close> and by
  \<^verbatim>\<open>maths\<close> alike.\<close>

theorem resolution_is_exact:
  "matchingMappings ms t = filter (\<lambda>m. stripHash (tag m) = stripHash t) ms
   \<and> (\<forall>m. m \<in> set (matchingMappings ms t) \<longleftrightarrow> m \<in> set ms \<and> stripHash (tag m) = stripHash t)
   \<and> subseq (matchingMappings ms t) ms
   \<and> ((\<forall>m \<in> set ms. stripHash (tag m) \<noteq> stripHash t) \<longrightarrow> matchingMappings ms t = [])
   \<and> stripHash (CHR ''#'' # x) = x
   \<and> (\<not> prefix ''#'' x \<longrightarrow> stripHash x = x)
   \<and> matchingMappings ms ''#maths'' = matchingMappings ms ''maths''
   \<and> (\<forall>m \<in> set ms. tag m = ''maths'' \<longrightarrow>
         m \<in> set (matchingMappings ms ''#maths'') \<and> m \<in> set (matchingMappings ms ''maths''))"
proof -
  have h: "stripHash ''#maths'' = ''maths''" "stripHash ''maths'' = ''maths''"
    by (simp_all add: stripHash_def)
  show ?thesis
    by (auto simp: matchingMappings_def stripHash_hash stripHash_plain h filter_empty_conv)
qed

theorem resolution_is_exact_witness:
  "matchingMappings
     [\<lparr>tag = ''maths'', mocPath = ''MOC''\<rparr>, \<lparr>tag = ''Maths'', mocPath = ''Upper''\<rparr>,
      \<lparr>tag = ''#maths'', mocPath = ''Hash''\<rparr>, \<lparr>tag = ''math'', mocPath = ''Short''\<rparr>]
     ''#maths''
     = [\<lparr>tag = ''maths'', mocPath = ''MOC''\<rparr>, \<lparr>tag = ''#maths'', mocPath = ''Hash''\<rparr>]
   \<and> matchingMappings
     [\<lparr>tag = ''maths'', mocPath = ''MOC''\<rparr>, \<lparr>tag = ''Maths'', mocPath = ''Upper''\<rparr>,
      \<lparr>tag = ''#maths'', mocPath = ''Hash''\<rparr>, \<lparr>tag = ''math'', mocPath = ''Short''\<rparr>]
     ''physics'' = []"
proof -
  let ?ms = "[\<lparr>tag = ''maths'', mocPath = ''MOC''\<rparr>, \<lparr>tag = ''Maths'', mocPath = ''Upper''\<rparr>,
      \<lparr>tag = ''#maths'', mocPath = ''Hash''\<rparr>, \<lparr>tag = ''math'', mocPath = ''Short''\<rparr>]"
  have none: "\<forall>m \<in> set ?ms. stripHash (tag m) \<noteq> stripHash ''physics''"
    by (simp add: stripHash_def)
  have plain: "\<not> prefix ''#'' ''maths''" by simp
  from resolution_is_exact[of ?ms "''physics''" "''maths''"] none
  have a: "matchingMappings ?ms ''physics'' = []" by blast
  from resolution_is_exact[of ?ms "''#maths''" "''maths''"]
  have "matchingMappings ?ms ''#maths''
          = filter (\<lambda>m. stripHash (tag m) = stripHash ''#maths'') ?ms" by blast
  then have b: "matchingMappings ?ms ''#maths''
     = [\<lparr>tag = ''maths'', mocPath = ''MOC''\<rparr>, \<lparr>tag = ''#maths'', mocPath = ''Hash''\<rparr>]"
    by (simp add: stripHash_def)
  from a b show ?thesis by simp
qed

section \<open>Matching with the regular expressions\<close>




lemma cons_image_iff:
  "(x, r) \<in> (\<lambda>(a, r). (d # a, r)) ` S \<longleftrightarrow> (\<exists>a'. x = d # a' \<and> (a', r) \<in> S)"
  by force

lemma greedy_splits_iff:
  "(a, r) \<in> set (greedy_splits p s) \<longleftrightarrow> s = a @ r \<and> (\<forall>c \<in> set a. p c)"
proof (induction s arbitrary: a)
  case Nil
  then show ?case by auto
next
  case (Cons c cs)
  show ?case
  proof (cases a)
    case Nil
    then show ?thesis by (auto simp: Cons.IH)
  next
    case (Cons d a')
    then show ?thesis by (auto simp: Cons.IH cons_image_iff)
  qed
qed

lemma first_some_SomeD:
  "first_some f xs = Some y \<Longrightarrow> \<exists>x \<in> set xs. f x = Some y"
  by (induction xs) (auto split: option.splits)

lemma first_some_None_iff:
  "first_some f xs = None \<longleftrightarrow> (\<forall>x \<in> set xs. f x = None)"
  by (induction xs) (auto split: option.splits)

lemma rx_Cons_SomeD:
  assumes "rx (a # as) s = Some (gs, r)"
  shows "\<exists>c m gs'. (c, m) \<in> set (alts a s) \<and> rx as m = Some (gs', r) \<and> gs = c # gs'"
proof -
  from assms obtain x where x: "x \<in> set (alts a s)"
    "(\<lambda>(c, r). map_option (\<lambda>(cs, r'). (c # cs, r')) (rx as r)) x = Some (gs, r)"
    using first_some_SomeD by fastforce
  obtain c m where cm: "x = (c, m)" by (cases x)
  with x(2) obtain y where y: "rx as m = Some y" "(\<lambda>(cs, r'). (c # cs, r')) y = (gs, r)"
    by auto
  obtain gs' r' where "y = (gs', r')" by (cases y)
  with y x(1) cm show ?thesis by auto
qed

lemma rx_Cons_complete:
  assumes "(c, m) \<in> set (alts a s)" and "rx as m \<noteq> None"
  shows "rx (a # as) s \<noteq> None"
proof -
  have "\<exists>x \<in> set (alts a s).
          (\<lambda>(c, r). map_option (\<lambda>(cs, r'). (c # cs, r')) (rx as r)) x \<noteq> None"
    using assms by (intro bexI[of _ "(c, m)"]) simp_all
  then have "first_some (\<lambda>(c, r). map_option (\<lambda>(cs, r'). (c # cs, r')) (rx as r)) (alts a s)
               \<noteq> None"
    by (auto simp: first_some_None_iff)
  then show ?thesis by simp
qed

declare rx.simps(2) [simp del]






lemma first_some_map: "first_some f (map g xs) = first_some (\<lambda>x. f (g x)) xs"
  by (induction xs) (auto split: option.splits)



section \<open>Properties of the section merger\<close>










section \<open>Properties of the link extraction\<close>

lemma splitAcc_indexOf:
  "sep \<noteq> [] \<Longrightarrow>
   splitAcc sep acc s =
     (case indexOf sep s of
        None \<Rightarrow> [rev acc @ s]
      | Some i \<Rightarrow> (rev acc @ take i s) # splitAcc sep [] (drop (i + length sep) s))"
proof (induction s arbitrary: acc)
  case Nil
  then show ?case by simp
next
  case (Cons c cs)
  show ?case
  proof (cases "prefix sep (c # cs)")
    case True
    with Cons.prems show ?thesis by (cases sep) simp_all
  next
    case False
    with Cons.prems Cons.IH[OF Cons.prems, of "c # acc"] show ?thesis
      by (simp split: option.splits)
  qed
qed

lemma split_indexOf:
  "sep \<noteq> [] \<Longrightarrow>
   split sep s =
     (case indexOf sep s of
        None \<Rightarrow> [s]
      | Some i \<Rightarrow> take i s # split sep (drop (i + length sep) s))"
  using splitAcc_indexOf[of sep "[]" s] by (simp add: split_def split: option.splits)

lemma hd_split:
  "sep \<noteq> [] \<Longrightarrow> hd (split sep s) = (case indexOf sep s of None \<Rightarrow> s | Some i \<Rightarrow> take i s)"
  by (subst split_indexOf) (auto split: option.splits)

lemma sectionLink_eq:
  "sectionLink sec =
     (case indexOf '']]'' sec of None \<Rightarrow> [] | Some j \<Rightarrow> [cleanLink (take j sec)])"
  by (simp add: sectionLink_def cleanLink_def hd_split split: option.splits)

text \<open>Claim C5, as the code has it: the text is scanned for \<^verbatim>\<open>[[\<close> from left to right,
  each search starting right behind the \<^verbatim>\<open>[[\<close> found before. For every \<^verbatim>\<open>[[\<close> the
  piece up to the next \<^verbatim>\<open>[[\<close> (or to the end) is looked at: when it holds \<^verbatim>\<open>]]\<close>, its
  part in front of the first \<^verbatim>\<open>]]\<close>, cut at the first \<^verbatim>\<open>|\<close> and trimmed, is a link;
  when it holds none, that \<^verbatim>\<open>[[\<close> gives nothing.\<close>

theorem links_follow_the_scan:
  "extractExistingLinks s =
     (case indexOf ''[['' s of
        None \<Rightarrow> []
      | Some i \<Rightarrow>
          (let r = drop (i + 2) s;
               seg = (case indexOf ''[['' r of None \<Rightarrow> r | Some k \<Rightarrow> take k r)
           in (case indexOf '']]'' seg of
                 None \<Rightarrow> []
               | Some j \<Rightarrow> [cleanLink (take j seg)])
              @ extractExistingLinks r))"
proof (cases "indexOf ''[['' s")
  case None
  then show ?thesis by (simp add: extractExistingLinks_def split_indexOf[of "''[[''" s])
next
  case (Some i)
  let ?r = "drop (i + 2) s"
  have 1: "drop 1 (split ''[['' s) = split ''[['' ?r"
    using Some by (simp add: split_indexOf[of "''[[''" s])
  have "split ''[['' ?r \<noteq> []"
    by (subst split_indexOf) (auto split: option.splits)
  then have 2: "split ''[['' ?r = hd (split ''[['' ?r) # drop 1 (split ''[['' ?r)"
    by (cases "split ''[['' ?r") simp_all
  have "extractExistingLinks s = concat (map sectionLink (split ''[['' ?r))"
    using 1 by (simp add: extractExistingLinks_def)
  also have "\<dots> = sectionLink (hd (split ''[['' ?r)) @ extractExistingLinks ?r"
    by (subst 2) (simp add: extractExistingLinks_def)
  finally show ?thesis
    using Some by (simp add: sectionLink_eq hd_split Let_def)
qed

theorem links_follow_the_scan_witness:
  "extractExistingLinks ''see [[ a | alias ]] and [[b [[c]]''
     = [cleanLink '' a | alias ''] @ extractExistingLinks '' a | alias ]] and [[b [[c]]''
   \<and> extractExistingLinks ''[[b [[c]]'' = extractExistingLinks ''b [[c]]''
   \<and> extractExistingLinks ''see [[ a | alias ]] and [[b [[c]]'' = [''a'', ''c'']"
proof -
  have 1: "extractExistingLinks ''see [[ a | alias ]] and [[b [[c]]''
     = [cleanLink '' a | alias ''] @ extractExistingLinks '' a | alias ]] and [[b [[c]]''"
    using links_follow_the_scan[of "''see [[ a | alias ]] and [[b [[c]]''"] by simp
  have 2: "extractExistingLinks ''[[b [[c]]'' = extractExistingLinks ''b [[c]]''"
    using links_follow_the_scan[of "''[[b [[c]]''"] by simp
  have 3: "extractExistingLinks ''see [[ a | alias ]] and [[b [[c]]'' = [''a'', ''c'']"
    by code_simp
  from 1 2 3 show ?thesis by blast
qed

theorem links_scan_counterexample:
  "extractExistingLinks ''[[a[[b]]'' \<noteq> spec_extract_links ''[[a[[b]]''"
proof -
  have "extractExistingLinks ''[[a[[b]]'' = [''b'']" by code_simp
  moreover have "spec_extract_links ''[[a[[b]]'' = [''a[[b'']" by code_simp
  ultimately show ?thesis by simp
qed

section \<open>Properties of the tag extraction\<close>

lemma rx_search_skip:
  "\<forall>i < length u. rx as (drop i (u @ v)) = None \<Longrightarrow> rx as v = Some (gs, r) \<Longrightarrow>
   rx_search as pre (u @ v) = Some (rev pre @ u, gs, r)"
proof (induction u arbitrary: pre)
  case Nil
  then show ?case by (cases v) simp_all
next
  case (Cons c u)
  from Cons.prems(1) have 0: "rx as (c # u @ v) = None" by force
  from Cons.prems(1) have "\<forall>i < length u. rx as (drop i (u @ v)) = None" by force
  from Cons.IH[OF this Cons.prems(2), of "c # pre"] 0 show ?case by simp
qed

lemma first_some_map_option:
  "first_some (\<lambda>x. map_option h (f x)) xs = map_option h (first_some f xs)"
  by (induction xs) (auto split: option.splits)

lemma rx_lazy_until:
  "\<forall>c \<in> set body. p c \<and> c \<noteq> x \<Longrightarrow>
   rx [LazyStar p, Lit [x]] (body @ x # post) = Some ([body, [x]], post)"
proof (induction body)
  case Nil
  then show ?case by (simp add: rx.simps)
next
  case (Cons c cs)
  let ?F = "\<lambda>(a, r). map_option (\<lambda>(gs, r'). (a # gs, r')) (rx [Lit [x]] r)"
  let ?h = "\<lambda>(gs, r'). ((c # hd gs) # tl gs, r')"
  from Cons.prems have c: "p c" "c \<noteq> x" by simp_all
  have ih: "first_some ?F (lazy_splits p (cs @ x # post)) = Some ([cs, [x]], post)"
    using Cons.IH Cons.prems by (simp add: rx.simps)
  have "(\<lambda>y. ?F (case y of (a, r) \<Rightarrow> (c # a, r))) = (\<lambda>y. map_option ?h (?F y))"
    by (auto simp: fun_eq_iff option.map_comp comp_def split: prod.splits intro!: option.map_cong)
  then have "first_some ?F (map (\<lambda>(a, r). (c # a, r)) (lazy_splits p (cs @ x # post)))
      = map_option ?h (first_some ?F (lazy_splits p (cs @ x # post)))"
    by (simp add: first_some_map first_some_map_option)
  with ih c have "first_some ?F (lazy_splits p ((c # cs) @ x # post)) = Some ([c # cs, [x]], post)"
    by (simp add: rx.simps)
  then show ?case by (simp add: rx.simps)
qed

lemma rx_Cons_first:
  "alts a s = (c, m) # rest \<Longrightarrow> rx as m = Some (gs, r) \<Longrightarrow> rx (a # as) s = Some (c # gs, r)"
  by (simp add: rx.simps)

lemma rx_inlineArray:
  assumes "\<forall>c \<in> set body. \<not> is_line_terminator c \<and> c \<noteq> CHR '']''"
  shows "rx inlineArrayRx (''tags: ['' @ body @ '']'' @ post)
           = Some ([''tags'', [], '':'', '' '', ''['', body, '']''], post)"
proof -
  have 1: "rx [LazyStar (\<lambda>c. \<not> is_line_terminator c), Lit '']''] (body @ '']'' @ post)
             = Some ([body, '']''], post)"
    using rx_lazy_until[of body "\<lambda>c. \<not> is_line_terminator c" "CHR '']''" post] assms by simp
  have 2: "rx [Lit ''['', LazyStar (\<lambda>c. \<not> is_line_terminator c), Lit '']'']
             (''['' @ body @ '']'' @ post) = Some ([''['', body, '']''], post)"
    by (rule rx_Cons_first[OF _ 1]) simp
  have 3: "rx [Star is_space, Lit ''['', LazyStar (\<lambda>c. \<not> is_line_terminator c), Lit '']'']
             ('' ['' @ body @ '']'' @ post) = Some (['' '', ''['', body, '']''], post)"
    by (rule rx_Cons_first[OF _ 2[simplified]]) (simp add: is_space_def)
  have 4: "rx [Lit '':'', Star is_space, Lit ''['', LazyStar (\<lambda>c. \<not> is_line_terminator c), Lit '']'']
             ('': ['' @ body @ '']'' @ post) = Some (['':'', '' '', ''['', body, '']''], post)"
    by (rule rx_Cons_first[OF _ 3[simplified]]) simp
  have 5: "rx [Star is_space, Lit '':'', Star is_space, Lit ''['',
               LazyStar (\<lambda>c. \<not> is_line_terminator c), Lit '']'']
             ('': ['' @ body @ '']'' @ post) = Some ([[], '':'', '' '', ''['', body, '']''], post)"
    by (rule rx_Cons_first[OF _ 4[simplified]]) (simp add: is_space_def)
  show ?thesis
    unfolding inlineArrayRx_def
    by (rule rx_Cons_first[OF _ 5[simplified]]) simp
qed

lemma indexOf_char_None: "x \<notin> set s \<Longrightarrow> indexOf [x] s = None"
  by (induction s) auto

lemma indexOf_char_append:
  "x \<notin> set u \<Longrightarrow> indexOf [x] (u @ x # v) = Some (length u)"
  by (induction u) auto

lemma split_two:
  assumes "CHR '','' \<notin> set a" and "CHR '','' \<notin> set b"
  shows "split '','' (a @ CHR '','' # CHR '' '' # b) = [a, CHR '' '' # b]"
proof -
  have 1: "indexOf '','' (a @ CHR '','' # CHR '' '' # b) = Some (length a)"
    using indexOf_char_append[OF assms(1), of "CHR '' '' # b"] by simp
  have 2: "indexOf '','' (CHR '' '' # b) = None"
    using indexOf_char_None[of "CHR '',''" "CHR '' '' # b"] assms(2) by simp
  have "split '','' (a @ CHR '','' # CHR '' '' # b) = a # split '','' (CHR '' '' # b)"
    using 1 by (subst split_indexOf) simp_all
  also have "split '','' (CHR '' '' # b) = [CHR '' '' # b]"
    using 2 by (subst split_indexOf) simp_all
  finally show ?thesis .
qed

lemma trim_space_front: "trim (CHR '' '' # b) = trim b"
  by (simp add: trim_def is_space_def)

lemma inlineArray_two:
  assumes "fm = pre @ ''tags: ['' @ a @ '', '' @ b @ '']'' @ post"
    and "\<forall>i < length pre. rx inlineArrayRx (drop i fm) = None"
    and "plainTag a" and "plainTag b"
  shows "inlineArray fm = [a, b]"
proof -
  let ?body = "a @ '', '' @ b"
  have body: "\<forall>c \<in> set ?body. \<not> is_line_terminator c \<and> c \<noteq> CHR '']''"
    using assms(3,4) by (auto simp: plainTag_def is_line_terminator_def)
  have m: "rx inlineArrayRx (''tags: ['' @ ?body @ '']'' @ post)
             = Some ([''tags'', [], '':'', '' '', ''['', ?body, '']''], post)"
    by (rule rx_inlineArray[OF body])
  have skip: "\<forall>i < length pre. rx inlineArrayRx (drop i (pre @ ''tags: ['' @ ?body @ '']'' @ post)) = None"
    using assms(1,2) by simp
  from rx_search_skip[OF skip m, of "[]"]
  have s: "rx_search inlineArrayRx [] fm
             = Some (pre, [''tags'', [], '':'', '' '', ''['', ?body, '']''], post)"
    using assms(1) by simp
  have ne: "a \<noteq> []" "b \<noteq> []" "trim a = a" "trim b = b"
    "CHR '','' \<notin> set a" "CHR '','' \<notin> set b"
    using assms(3,4) by (auto simp: plainTag_def)
  show ?thesis
    using ne by (simp add: inlineArray_def s split_two trim_space_front)
qed

lemma greedy_splits_hd:
  "\<exists>rest. greedy_splits p s = (takeWhile p s, dropWhile p s) # rest"
  by (induction s) auto

lemma rx_Plus:
  "rx [Plus p] s = (if takeWhile p s = [] then None else Some ([takeWhile p s], dropWhile p s))"
proof (cases "takeWhile p s = []")
  case True
  then have "greedy_splits p s = [([], s)]"
    by (cases s) (auto split: if_splits)
  then show ?thesis using True by (simp add: rx.simps)
next
  case False
  obtain rest where "greedy_splits p s = (takeWhile p s, dropWhile p s) # rest"
    using greedy_splits_hd by blast
  then have "alts (Plus p) s = (takeWhile p s, dropWhile p s)
          # filter (\<lambda>(a, r). a \<noteq> []) rest"
    using False by simp
  from rx_Cons_first[OF this, of "[]" "[]" "dropWhile p s"] False show ?thesis by simp
qed

lemma takeWhile_take_indexOf:
  "\<not> p x \<Longrightarrow> indexOf [x] r = Some k \<Longrightarrow> takeWhile p (take k r) = takeWhile p r"
proof (induction r arbitrary: k)
  case Nil
  then show ?case by simp
next
  case (Cons c cs)
  then show ?case by (cases "c = x") auto
qed

lemma hash_not_tag_char: "\<not> is_tag_char (CHR ''#'')"
  by (simp add: is_tag_char_def)

lemma bodyTags_pieces:
  "concat (map (\<lambda>part. case rx [Plus is_tag_char] part of Some (gs, r) \<Rightarrow> [gs ! 0] | None \<Rightarrow> [])
             (split ''#'' r))
   = inlineTag r @ bodyTags r"
proof (cases "indexOf ''#'' r")
  case None
  then show ?thesis
    by (simp add: split_indexOf[of "''#''" r] bodyTags_def rx_Plus inlineTag_def)
next
  case (Some k)
  have "takeWhile is_tag_char (take k r) = takeWhile is_tag_char r"
    using takeWhile_take_indexOf[where p = is_tag_char and x = "CHR ''#''" and r = r and k = k]
      hash_not_tag_char Some by simp
  then show ?thesis
    using Some by (simp add: split_indexOf[of "''#''" r] bodyTags_def rx_Plus inlineTag_def)
qed

lemma bodyTags_scan:
  "bodyTags s =
     (case indexOf ''#'' s of
        None \<Rightarrow> []
      | Some i \<Rightarrow> inlineTag (drop (i + 1) s) @ bodyTags (drop (i + 1) s))"
proof (cases "indexOf ''#'' s")
  case None
  then show ?thesis by (simp add: bodyTags_def split_indexOf[of "''#''" s])
next
  case (Some i)
  have "drop 1 (split ''#'' s) = split ''#'' (drop (i + 1) s)"
    using Some by (simp add: split_indexOf[of "''#''" s])
  then have "bodyTags s = concat (map (\<lambda>part. case rx [Plus is_tag_char] part of
                 Some (gs, r) \<Rightarrow> [gs ! 0] | None \<Rightarrow> []) (split ''#'' (drop (i + 1) s)))"
    by (simp add: bodyTags_def)
  then show ?thesis using Some by (simp add: bodyTags_pieces)
qed

lemma inline_list_first_match:
  assumes "frontmatterMatch doc = Some fm"
    and "fm = pre @ ''tags: ['' @ a @ '', '' @ b @ '']'' @ post"
    and "\<forall>i < length pre. rx inlineArrayRx (drop i fm) = None"
    and "plainTag a" and "plainTag b"
  shows "extractTags doc
          = singleTag fm @ [a, b] @ multilineTags False (split ''\<newline>'' fm) @ bodyTags doc"
proof -
  from inlineArray_two[OF assms(2-5)] have "inlineArray fm = [a, b]" .
  moreover from assms(2) have "fm \<noteq> []" by simp
  ultimately show ?thesis
    using assms(1) by (simp add: extractTags_def frontmatterTags_def)
qed

text \<open>Claim C6: for a note whose front matter holds the inline list \<^verbatim>\<open>tags: [a, b]\<close>,
  the tags \<open>a\<close> and \<open>b\<close> are returned in this order, in front of the inline tags. The
  code misses them when another key of the front matter ends in \<^verbatim>\<open>tags\<close>: the pattern
  \<^verbatim>\<open>/tags\s*:\s*\[(.*?)\]/\<close> carries no anchor and only its first match is used, so on
  the front matter below the list of \<^verbatim>\<open>hashtags\<close> is taken and the result holds neither
  \<open>a\<close> nor \<open>b\<close>. The test for the block form, \<^verbatim>\<open>/^tags\s*:/\<close>, takes the line
  \<^verbatim>\<open>tags: [a, b]\<close> for the key and not the line \<^verbatim>\<open>hashtags: [x]\<close>; without the other
  key both tags are returned.\<close>

theorem inline_list_reads_other_key:
  "frontmatterMatch ''---\<newline>hashtags: [x]\<newline>tags: [a, b]\<newline>---\<newline>''
     = Some ''hashtags: [x]\<newline>tags: [a, b]''
   \<and> extractTags ''---\<newline>hashtags: [x]\<newline>tags: [a, b]\<newline>---\<newline>'' = [''x'']
   \<and> inlineArray ''hashtags: [x]\<newline>tags: [a, b]'' = [''x'']
   \<and> isTagsKey ''tags: [a, b]''
   \<and> \<not> isTagsKey ''hashtags: [x]''
   \<and> extractTags ''---\<newline>tags: [a, b]\<newline>---\<newline>'' = [''a'', ''b'']"
proof -
  have 1: "frontmatterMatch ''---\<newline>hashtags: [x]\<newline>tags: [a, b]\<newline>---\<newline>''
     = Some ''hashtags: [x]\<newline>tags: [a, b]''" by code_simp
  have 2: "extractTags ''---\<newline>hashtags: [x]\<newline>tags: [a, b]\<newline>---\<newline>'' = [''x'']"
    by code_simp
  have 3: "inlineArray ''hashtags: [x]\<newline>tags: [a, b]'' = [''x'']" by code_simp
  have 4: "isTagsKey ''tags: [a, b]''" by code_simp
  have 5: "\<not> isTagsKey ''hashtags: [x]''" by code_simp
  have 6: "extractTags ''---\<newline>tags: [a, b]\<newline>---\<newline>'' = [''a'', ''b'']" by code_simp
  from 1 2 3 4 5 6 show ?thesis by blast
qed

lemma multilineTags_step:
  "multilineTags inb (l # ls) =
     (if isTagsKey l then multilineTags True ls
      else if inb then
        (case listItem l of
           Some v \<Rightarrow> v # multilineTags True ls
         | None \<Rightarrow> if \<not> prefix ''-'' (trim l) then multilineTags False ls
                   else multilineTags True ls)
      else multilineTags False ls)"
  by (auto simp: isTagsKey_def listItem_def split: option.splits)

lemma multilineTags_before:
  "\<forall>l \<in> set pre. \<not> isTagsKey l \<Longrightarrow> multilineTags False (pre @ ls) = multilineTags False ls"
  by (induction pre) (simp_all add: multilineTags_step del: multilineTags.simps(2))

lemma multilineTags_items:
  "\<forall>l \<in> set items. \<not> isTagsKey l \<and> (listItem l \<noteq> None \<or> prefix ''-'' (trim l)) \<Longrightarrow>
   multilineTags True (items @ ls) = List.map_filter listItem items @ multilineTags True ls"
  by (induction items)
     (auto simp: multilineTags_step List.map_filter_simps simp del: multilineTags.simps(2)
           split: option.splits)

lemma multilineTags_block:
  assumes "\<forall>l \<in> set pre. \<not> isTagsKey l" and "isTagsKey key"
    and "\<forall>l \<in> set items. \<not> isTagsKey l \<and> (listItem l \<noteq> None \<or> prefix ''-'' (trim l))"
  shows "multilineTags False (pre @ key # items) = List.map_filter listItem items"
    and "\<not> isTagsKey stop \<Longrightarrow> listItem stop = None \<Longrightarrow> \<not> prefix ''-'' (trim stop) \<Longrightarrow>
         \<forall>l \<in> set rest. \<not> isTagsKey l \<Longrightarrow>
         multilineTags False (pre @ key # items @ stop # rest) = List.map_filter listItem items"
proof -
  have k: "multilineTags False (pre @ key # ls) = multilineTags True ls" for ls
    using assms(1,2) by (simp add: multilineTags_before multilineTags_step del: multilineTags.simps(2))
  show "multilineTags False (pre @ key # items) = List.map_filter listItem items"
    using multilineTags_items[OF assms(3), of "[]"] by (simp add: k)
  assume s: "\<not> isTagsKey stop" "listItem stop = None" "\<not> prefix ''-'' (trim stop)"
    and r: "\<forall>l \<in> set rest. \<not> isTagsKey l"
  have "multilineTags True (stop # rest) = multilineTags False rest"
    using s by (simp add: multilineTags_step del: multilineTags.simps(2))
  also have "\<dots> = []" using multilineTags_before[OF r, of "[]"] by simp
  finally show "multilineTags False (pre @ key # items @ stop # rest) = List.map_filter listItem items"
    using multilineTags_items[OF assms(3), of "stop # rest"] by (simp add: k)
qed

lemma isTagsKey_iff:
  "isTagsKey l \<longleftrightarrow> (\<exists>ws r. l = ''tags'' @ ws @ '':'' @ r \<and> (\<forall>c \<in> set ws. is_space c))"
proof
  assume "isTagsKey l"
  then obtain gs r where m: "rx [Lit ''tags'', Star is_space, Lit '':''] l = Some (gs, r)"
    by (auto simp: isTagsKey_def tagsKeyRx_def)
  from rx_Cons_SomeD[OF m] obtain c1 m1 g1 where
    1: "(c1, m1) \<in> set (alts (Lit ''tags'') l)" "rx [Star is_space, Lit '':''] m1 = Some (g1, r)"
    by blast
  from rx_Cons_SomeD[OF 1(2)] obtain c2 m2 g2 where
    2: "(c2, m2) \<in> set (alts (Star is_space) m1)" "rx [Lit '':''] m2 = Some (g2, r)" by blast
  from rx_Cons_SomeD[OF 2(2)] obtain c3 m3 g3 where
    3: "(c3, m3) \<in> set (alts (Lit '':'') m2)" by blast
  from 1(1) have a: "l = ''tags'' @ m1" by (auto simp: prefix_def split: if_splits)
  from 2(1) have b: "m1 = c2 @ m2" "\<forall>c \<in> set c2. is_space c" by (auto simp: greedy_splits_iff)
  from 3 have c: "m2 = '':'' @ m3" by (auto simp: prefix_def split: if_splits)
  from a b c show "\<exists>ws r. l = ''tags'' @ ws @ '':'' @ r \<and> (\<forall>c \<in> set ws. is_space c)"
    by blast
next
  assume "\<exists>ws r. l = ''tags'' @ ws @ '':'' @ r \<and> (\<forall>c \<in> set ws. is_space c)"
  then obtain ws r where l: "l = ''tags'' @ ws @ '':'' @ r" and ws: "\<forall>c \<in> set ws. is_space c"
    by blast
  have 3: "rx [Lit '':''] ('':'' @ r) \<noteq> None"
    by (rule rx_Cons_complete[of "'':''" r]) simp_all
  have 2: "rx [Star is_space, Lit '':''] (ws @ '':'' @ r) \<noteq> None"
    by (rule rx_Cons_complete[of ws "'':'' @ r"]) (use ws 3 in \<open>auto simp: greedy_splits_iff\<close>)
  have "rx [Lit ''tags'', Star is_space, Lit '':''] (''tags'' @ ws @ '':'' @ r) \<noteq> None"
    by (rule rx_Cons_complete[of "''tags''" "ws @ '':'' @ r"]) (use 2 in auto)
  then show "isTagsKey l" using l by (simp add: isTagsKey_def tagsKeyRx_def)
qed

lemma listItem_SomeD:
  assumes "listItem l = Some v"
  shows "\<exists>ws1 ws2 val. l = ws1 @ ''-'' @ ws2 @ val \<and> (\<forall>c \<in> set ws1. is_space c)
            \<and> (\<forall>c \<in> set ws2. is_space c) \<and> val \<noteq> []
            \<and> (\<forall>c \<in> set val. \<not> is_line_terminator c) \<and> v = trim val"
proof -
  from assms obtain gs r where
    m: "rx [Star is_space, Lit ''-'', Star is_space, Plus (\<lambda>c. \<not> is_line_terminator c), EndInput] l
          = Some (gs, r)" and v: "v = trim (gs ! 3)"
    by (auto simp: listItem_def listItemRx_def)
  from rx_Cons_SomeD[OF m] obtain c1 m1 g1 where
    1: "(c1, m1) \<in> set (alts (Star is_space) l)"
       "rx [Lit ''-'', Star is_space, Plus (\<lambda>c. \<not> is_line_terminator c), EndInput] m1 = Some (g1, r)"
       "gs = c1 # g1" by blast
  from rx_Cons_SomeD[OF 1(2)] obtain c2 m2 g2 where
    2: "(c2, m2) \<in> set (alts (Lit ''-'') m1)"
       "rx [Star is_space, Plus (\<lambda>c. \<not> is_line_terminator c), EndInput] m2 = Some (g2, r)"
       "g1 = c2 # g2" by blast
  from rx_Cons_SomeD[OF 2(2)] obtain c3 m3 g3 where
    3: "(c3, m3) \<in> set (alts (Star is_space) m2)"
       "rx [Plus (\<lambda>c. \<not> is_line_terminator c), EndInput] m3 = Some (g3, r)"
       "g2 = c3 # g3" by blast
  from rx_Cons_SomeD[OF 3(2)] obtain c4 m4 g4 where
    4: "(c4, m4) \<in> set (alts (Plus (\<lambda>c. \<not> is_line_terminator c)) m3)"
       "rx [EndInput] m4 = Some (g4, r)" "g3 = c4 # g4" by blast
  from rx_Cons_SomeD[OF 4(2)] obtain c5 m5 g5 where
    5: "(c5, m5) \<in> set (alts EndInput m4)" by blast
  from 1(1) have a: "l = c1 @ m1" "\<forall>c \<in> set c1. is_space c" by (auto simp: greedy_splits_iff)
  from 2(1) have b: "m1 = ''-'' @ m2" by (auto simp: prefix_def split: if_splits)
  from 3(1) have c: "m2 = c3 @ m3" "\<forall>c \<in> set c3. is_space c" by (auto simp: greedy_splits_iff)
  from 4(1) have d: "m3 = c4 @ m4" "\<forall>c \<in> set c4. \<not> is_line_terminator c" "c4 \<noteq> []"
    by (auto simp: greedy_splits_iff)
  from 5 have e: "m4 = []" by (auto split: if_splits)
  from 1(3) 2(3) 3(3) 4(3) v have "v = trim c4" by simp
  with a b c d e show ?thesis by (intro exI[of _ c1] exI[of _ c3] exI[of _ c4]) simp
qed

lemma trim_spaces_front:
  "\<forall>c \<in> set ws. is_space c \<Longrightarrow> trim (ws @ x) = trim x"
  by (simp add: trim_def dropWhile_append2)

lemma dash_not_space: "\<not> is_space (CHR ''-'')"
  by (simp add: is_space_def)

lemma spaces_then_dash_unique:
  assumes "ws1 @ CHR ''-'' # x = ws1' @ CHR ''-'' # x'"
    and "\<forall>c \<in> set ws1. is_space c" and "\<forall>c \<in> set ws1'. is_space c"
  shows "ws1 = ws1' \<and> x = x'"
proof -
  have "takeWhile is_space (ws1 @ CHR ''-'' # x) = ws1"
    using assms(2) dash_not_space by (simp add: takeWhile_append2)
  moreover have "takeWhile is_space (ws1' @ CHR ''-'' # x') = ws1'"
    using assms(3) dash_not_space by (simp add: takeWhile_append2)
  ultimately have "ws1 = ws1'" using assms(1) by simp
  with assms(1) show ?thesis by simp
qed

lemma listItem_complete:
  assumes "\<forall>c \<in> set ws1. is_space c" and "\<forall>c \<in> set ws2. is_space c"
    and "val \<noteq> []" and "\<forall>c \<in> set val. \<not> is_line_terminator c"
  shows "listItem (ws1 @ ''-'' @ ws2 @ val) = Some (trim val)"
proof -
  let ?dot = "\<lambda>c. \<not> is_line_terminator c"
  have 5: "rx [EndInput] [] \<noteq> None"
    by (rule rx_Cons_complete[of "[]" "[]"]) simp_all
  have 4: "rx [Plus ?dot, EndInput] val \<noteq> None"
    by (rule rx_Cons_complete[of val "[]"]) (use assms(3,4) 5 in \<open>auto simp: greedy_splits_iff\<close>)
  have 3: "rx [Star is_space, Plus ?dot, EndInput] (ws2 @ val) \<noteq> None"
    by (rule rx_Cons_complete[of ws2 val]) (use assms(2) 4 in \<open>auto simp: greedy_splits_iff\<close>)
  have 2: "rx [Lit ''-'', Star is_space, Plus ?dot, EndInput] (''-'' @ ws2 @ val) \<noteq> None"
    by (rule rx_Cons_complete[of "''-''" "ws2 @ val"]) (use 3 in auto)
  have "rx listItemRx (ws1 @ ''-'' @ ws2 @ val) \<noteq> None"
    unfolding listItemRx_def
    by (rule rx_Cons_complete[of ws1 "''-'' @ ws2 @ val"])
       (use assms(1) 2 in \<open>auto simp: greedy_splits_iff\<close>)
  then obtain v where v: "listItem (ws1 @ ''-'' @ ws2 @ val) = Some v"
    by (auto simp: listItem_def)
  from listItem_SomeD[OF v] obtain ws1' ws2' val' where
    d: "ws1 @ ''-'' @ ws2 @ val = ws1' @ ''-'' @ ws2' @ val'"
       "\<forall>c \<in> set ws1'. is_space c" "\<forall>c \<in> set ws2'. is_space c" "v = trim val'"
    by blast
  from d(1) have "ws1 @ CHR ''-'' # (ws2 @ val) = ws1' @ CHR ''-'' # (ws2' @ val')" by simp
  from spaces_then_dash_unique[OF this assms(1) d(2)] have "ws2 @ val = ws2' @ val'" by simp
  then have "trim (ws2 @ val) = trim (ws2' @ val')" by simp
  then have "trim val = trim val'"
    using assms(2) d(3) by (simp add: trim_spaces_front)
  with v d(4) show ?thesis by simp
qed

lemma listItem_iff:
  "listItem l = Some v \<longleftrightarrow>
     (\<exists>ws1 ws2 val. l = ws1 @ ''-'' @ ws2 @ val \<and> (\<forall>c \<in> set ws1. is_space c)
        \<and> (\<forall>c \<in> set ws2. is_space c) \<and> val \<noteq> []
        \<and> (\<forall>c \<in> set val. \<not> is_line_terminator c) \<and> v = trim val)"
proof
  assume "listItem l = Some v"
  then show "\<exists>ws1 ws2 val. l = ws1 @ ''-'' @ ws2 @ val \<and> (\<forall>c \<in> set ws1. is_space c)
        \<and> (\<forall>c \<in> set ws2. is_space c) \<and> val \<noteq> []
        \<and> (\<forall>c \<in> set val. \<not> is_line_terminator c) \<and> v = trim val"
    by (rule listItem_SomeD)
next
  assume "\<exists>ws1 ws2 val. l = ws1 @ ''-'' @ ws2 @ val \<and> (\<forall>c \<in> set ws1. is_space c)
        \<and> (\<forall>c \<in> set ws2. is_space c) \<and> val \<noteq> []
        \<and> (\<forall>c \<in> set val. \<not> is_line_terminator c) \<and> v = trim val"
  then obtain ws1 ws2 val where "l = ws1 @ ''-'' @ ws2 @ val" "\<forall>c \<in> set ws1. is_space c"
    "\<forall>c \<in> set ws2. is_space c" "val \<noteq> []" "\<forall>c \<in> set val. \<not> is_line_terminator c"
    "v = trim val" by blast
  then show "listItem l = Some v" using listItem_complete by simp
qed

text \<open>Claim C7, as the code has it: a line that starts with \<^verbatim>\<open>tags\<close>, white space and
  \<^verbatim>\<open>:\<close> opens the block, with nothing in front of \<^verbatim>\<open>tags\<close> and anything behind the
  colon. A line is a list item exactly when it is white space, a dash, white space and a
  value that is not empty and holds no line end (the white space may be empty on either
  side of the dash); it contributes the trimmed value. Each following list item
  contributes its value; a line that is no list item but starts with \<^verbatim>\<open>-\<close> once trimmed
  contributes nothing and keeps the block open. The block ends at the first line that is
  neither a list item nor starts with \<^verbatim>\<open>-\<close>; the lines behind it contribute nothing as
  long as none of them opens a block again.\<close>

theorem block_list_tags:
  "((\<forall>l \<in> set pre. \<not> isTagsKey l) \<and> isTagsKey key
      \<and> (\<forall>l \<in> set items. \<not> isTagsKey l \<and> (listItem l \<noteq> None \<or> prefix ''-'' (trim l)))
      \<and> \<not> isTagsKey stop \<and> listItem stop = None \<and> \<not> prefix ''-'' (trim stop)
      \<and> (\<forall>l \<in> set rest. \<not> isTagsKey l)
    \<longrightarrow> multilineTags False (pre @ key # items @ stop # rest) = List.map_filter listItem items
        \<and> multilineTags False (pre @ key # items) = List.map_filter listItem items)
   \<and> (isTagsKey l \<longleftrightarrow> (\<exists>ws r. l = ''tags'' @ ws @ '':'' @ r \<and> (\<forall>c \<in> set ws. is_space c)))
   \<and> (listItem l = Some v \<longleftrightarrow>
        (\<exists>ws1 ws2 val. l = ws1 @ ''-'' @ ws2 @ val \<and> (\<forall>c \<in> set ws1. is_space c)
            \<and> (\<forall>c \<in> set ws2. is_space c) \<and> val \<noteq> []
            \<and> (\<forall>c \<in> set val. \<not> is_line_terminator c) \<and> v = trim val))"
proof (intro conjI impI)
  assume h: "(\<forall>l \<in> set pre. \<not> isTagsKey l) \<and> isTagsKey key
      \<and> (\<forall>l \<in> set items. \<not> isTagsKey l \<and> (listItem l \<noteq> None \<or> prefix ''-'' (trim l)))
      \<and> \<not> isTagsKey stop \<and> listItem stop = None \<and> \<not> prefix ''-'' (trim stop)
      \<and> (\<forall>l \<in> set rest. \<not> isTagsKey l)"
  then have a: "\<forall>l \<in> set pre. \<not> isTagsKey l" "isTagsKey key"
    "\<forall>l \<in> set items. \<not> isTagsKey l \<and> (listItem l \<noteq> None \<or> prefix ''-'' (trim l))"
    and b: "\<not> isTagsKey stop" "listItem stop = None" "\<not> prefix ''-'' (trim stop)"
    "\<forall>l \<in> set rest. \<not> isTagsKey l"
    by simp_all
  show "multilineTags False (pre @ key # items @ stop # rest) = List.map_filter listItem items"
    by (rule multilineTags_block(2)[OF a b])
  show "multilineTags False (pre @ key # items) = List.map_filter listItem items"
    by (rule multilineTags_block(1)[OF a])
next
  show "isTagsKey l \<longleftrightarrow> (\<exists>ws r. l = ''tags'' @ ws @ '':'' @ r \<and> (\<forall>c \<in> set ws. is_space c))"
    by (rule isTagsKey_iff)
next
  show "listItem l = Some v \<longleftrightarrow>
        (\<exists>ws1 ws2 val. l = ws1 @ ''-'' @ ws2 @ val \<and> (\<forall>c \<in> set ws1. is_space c)
            \<and> (\<forall>c \<in> set ws2. is_space c) \<and> val \<noteq> []
            \<and> (\<forall>c \<in> set val. \<not> is_line_terminator c) \<and> v = trim val)"
    by (rule listItem_iff)
qed

theorem block_list_tags_witness:
  "isTagsKey ''tags:'' \<and> \<not> isTagsKey ''title: T'' \<and> \<not> isTagsKey ''  tags:''
   \<and> \<not> isTagsKey ''other: 1'' \<and> listItem ''other: 1'' = None
   \<and> \<not> prefix ''-'' (trim ''other: 1'')
   \<and> listItem ''-'' = None \<and> prefix ''-'' (trim ''-'')
   \<and> multilineTags False
        ([''title: T''] @ ''tags:'' # [''-a'', ''-'', ''  - b ''] @ ''other: 1'' # [''- c''])
       = List.map_filter listItem [''-a'', ''-'', ''  - b '']
   \<and> List.map_filter listItem [''-a'', ''-'', ''  - b ''] = [''a'', ''b'']
   \<and> listItem ''-a'' = Some ''a''
   \<and> listItem ''  - b '' = Some ''b''
   \<and> (\<exists>ws r. ''tags:'' = ''tags'' @ ws @ '':'' @ r)"
proof -
  have 1: "\<forall>l \<in> set [''title: T'']. \<not> isTagsKey l" by code_simp
  have 2: "isTagsKey ''tags:''" by code_simp
  have 3: "\<forall>l \<in> set [''-a'', ''-'', ''  - b ''].
         \<not> isTagsKey l \<and> (listItem l \<noteq> None \<or> prefix ''-'' (trim l))" by code_simp
  have 4: "\<not> isTagsKey ''other: 1''" by code_simp
  have 5: "listItem ''other: 1'' = None" by code_simp
  have 6: "\<not> prefix ''-'' (trim ''other: 1'')" by code_simp
  have 7: "\<forall>l \<in> set [''- c'']. \<not> isTagsKey l" by code_simp
  have 8: "List.map_filter listItem [''-a'', ''-'', ''  - b ''] = [''a'', ''b'']" by code_simp
  have 10: "\<not> isTagsKey ''title: T''" "\<not> isTagsKey ''  tags:''" "listItem ''-'' = None"
    "prefix ''-'' (trim ''-'')" by code_simp+
  note T = block_list_tags[of "[''title: T'']" "''tags:''" "[''-a'', ''-'', ''  - b '']"
             "''other: 1''" "[''- c'']"]
  from T[THEN conjunct1] 1 2 3 4 5 6 7
  have a: "multilineTags False
        ([''title: T''] @ ''tags:'' # [''-a'', ''-'', ''  - b ''] @ ''other: 1'' # [''- c''])
       = List.map_filter listItem [''-a'', ''-'', ''  - b '']"
    by blast
  have ta: "trim ''a'' = ''a''" and tb: "trim ''b '' = ''b''" by code_simp+
  have sa: "''-a'' = [] @ ''-'' @ [] @ ''a'' \<and> (\<forall>c \<in> set ([]::string). is_space c)
      \<and> (\<forall>c \<in> set ([]::string). is_space c) \<and> ''a'' \<noteq> []
      \<and> (\<forall>c \<in> set ''a''. \<not> is_line_terminator c) \<and> ''a'' = trim ''a''"
    by (simp add: ta is_line_terminator_def)
  from T[of "''-a''" "''a''", THEN conjunct2, THEN conjunct2] sa
  have b: "listItem ''-a'' = Some ''a''" by blast
  have sb: "''  - b '' = ''  '' @ ''-'' @ '' '' @ ''b '' \<and> (\<forall>c \<in> set ''  ''. is_space c)
      \<and> (\<forall>c \<in> set '' ''. is_space c) \<and> ''b '' \<noteq> []
      \<and> (\<forall>c \<in> set ''b ''. \<not> is_line_terminator c) \<and> ''b'' = trim ''b ''"
    by (simp add: tb is_line_terminator_def is_space_def)
  from T[of "''  - b ''" "''b''", THEN conjunct2, THEN conjunct2] sb
  have c: "listItem ''  - b '' = Some ''b''" by blast
  from T[of "''tags:''" "''x''", THEN conjunct2, THEN conjunct1] 2
  have d: "\<exists>ws r. ''tags:'' = ''tags'' @ ws @ '':'' @ r" by blast
  from 2 4 5 6 8 10 a b c d show ?thesis by blast
qed

theorem block_list_counterexample:
  "multilineTags False [''  tags:'', ''  - a''] \<noteq> spec_blockTags [''  tags:'', ''  - a'']
   \<and> multilineTags False [''tags:'', ''- a'', ''-'', ''- b'']
       \<noteq> spec_blockTags [''tags:'', ''- a'', ''-'', ''- b'']"
proof -
  have "multilineTags False [''  tags:'', ''  - a''] = []" by code_simp
  moreover have "spec_blockTags [''  tags:'', ''  - a''] = [''a'']" by code_simp
  moreover have "multilineTags False [''tags:'', ''- a'', ''-'', ''- b''] = [''a'', ''b'']"
    by code_simp
  moreover have "spec_blockTags [''tags:'', ''- a'', ''-'', ''- b''] = [''a'']" by code_simp
  ultimately show ?thesis by simp
qed

end
